theory Spec2Isabelle
  imports Complex_Main
begin

section \<open>Numbers, arrays and errors\<close>

text \<open>
  The notebook \<^verbatim>\<open>smd_handson_fitting.ipynb\<close> computes with numpy arrays of float64.
  Here a float64 is idealised as a real number (exact arithmetic, no rounding; the
  unbinned likelihood fit also keeps \<open>inf\<close>, \<open>nan\<close> and the underflow of \<^verbatim>\<open>np.exp\<close>), a
  one-dimensional array is a list of reals and a two-dimensional array is a list of rows
  together with its number of columns, so that an array of shape \<open>(0, P)\<close> keeps its \<open>P\<close>.
  A Python exception is a value of \<open>py_error\<close>; every numpy operation that can raise
  returns \<open>py_error + 'a\<close>.
\<close>

type_synonym vec = "real list"

datatype py_error = ValueError | TypeError | LinAlgError_not_square | LinAlgError_singular

datatype matrix = Matrix (ncols: nat) (rows: "vec list")

definition nrows :: "matrix \<Rightarrow> nat" where
  "nrows A = length (rows A)"

text \<open>An array is rectangular: \<open>rect n m\<close> says that a list of rows has \<open>n\<close> rows of length \<open>m\<close>.\<close>

definition rect :: "nat \<Rightarrow> nat \<Rightarrow> vec list \<Rightarrow> bool" where
  "rect n m M \<longleftrightarrow> length M = n \<and> (\<forall>r \<in> set M. length r = m)"

definition has_shape :: "nat \<Rightarrow> nat \<Rightarrow> matrix \<Rightarrow> bool" where
  "has_shape n m A \<longleftrightarrow> ncols A = m \<and> rect n m (rows A)"

definition ebind :: "py_error + 'a \<Rightarrow> ('a \<Rightarrow> py_error + 'b) \<Rightarrow> py_error + 'b" where
  "ebind r f = (case r of Inl e \<Rightarrow> Inl e | Inr v \<Rightarrow> f v)"

subsection \<open>Vector operations\<close>

definition dot :: "vec \<Rightarrow> vec \<Rightarrow> real" where
  "dot u v = sum_list (map2 (*) u v)"

definition vadd :: "vec \<Rightarrow> vec \<Rightarrow> vec" where
  "vadd u v = map2 (+) u v"

definition vsub :: "vec \<Rightarrow> vec \<Rightarrow> vec" where
  "vsub u v = map2 (-) u v"

definition smul :: "real \<Rightarrow> vec \<Rightarrow> vec" where
  "smul a v = map ((*) a) v"

definition mv :: "vec list \<Rightarrow> vec \<Rightarrow> vec" where
  "mv M v = map (\<lambda>r. dot r v) M"

text \<open>\<open>cols m M\<close> lists the \<open>m\<close> columns of the rows \<open>M\<close>: the rows of the transpose.\<close>

definition cols :: "nat \<Rightarrow> vec list \<Rightarrow> vec list" where
  "cols m M = map (\<lambda>j. map (\<lambda>r. r ! j) M) [0..<m]"

definition unit_vec :: "nat \<Rightarrow> nat \<Rightarrow> vec" where
  "unit_vec n i = map (\<lambda>j. if j = i then 1 else 0) [0..<n]"

subsection \<open>The numpy operations the notebook uses\<close>

text \<open>\<^verbatim>\<open>A.T\<close>\<close>

definition transpose_m :: "matrix \<Rightarrow> matrix" where
  "transpose_m A = Matrix (nrows A) (cols (ncols A) (rows A))"

text \<open>
  \<^verbatim>\<open>A @ B\<close> raises \<^verbatim>\<open>ValueError\<close> when the inner dimensions differ. The operator is
  modelled once for each combination of one- and two-dimensional operands that occurs.
\<close>

definition matmul :: "matrix \<Rightarrow> matrix \<Rightarrow> py_error + matrix" where
  "matmul A B =
     (if ncols A = nrows B
      then Inr (Matrix (ncols B) (map (mv (cols (ncols B) (rows B))) (rows A)))
      else Inl ValueError)"

definition matvec :: "matrix \<Rightarrow> vec \<Rightarrow> py_error + vec" where
  "matvec A v = (if ncols A = length v then Inr (mv (rows A) v) else Inl ValueError)"

definition vecmat :: "vec \<Rightarrow> matrix \<Rightarrow> py_error + vec" where
  "vecmat v A =
     (if length v = nrows A then Inr (mv (cols (ncols A) (rows A)) v) else Inl ValueError)"

definition vecdot :: "vec \<Rightarrow> vec \<Rightarrow> py_error + real" where
  "vecdot u v = (if length u = length v then Inr (dot u v) else Inl ValueError)"

text \<open>
  \<^verbatim>\<open>u - v\<close> on one-dimensional arrays broadcasts an operand of length one and raises
  \<^verbatim>\<open>ValueError\<close> for any other pair of different lengths.
\<close>

definition vec_sub :: "vec \<Rightarrow> vec \<Rightarrow> py_error + vec" where
  "vec_sub u v =
     (if length u = length v then Inr (vsub u v)
      else if length v = 1 then Inr (map (\<lambda>a. a - v ! 0) u)
      else if length u = 1 then Inr (map (\<lambda>b. u ! 0 - b) v)
      else Inl ValueError)"

text \<open>\<^verbatim>\<open>np.eye(n)\<close>\<close>

definition eye :: "nat \<Rightarrow> matrix" where
  "eye n = Matrix n (map (unit_vec n) [0..<n])"

text \<open>
  \<^verbatim>\<open>np.column_stack(columns)\<close> for one-dimensional columns: an empty sequence and columns
  of different lengths raise \<^verbatim>\<open>ValueError\<close>.
\<close>

definition column_stack :: "vec list \<Rightarrow> py_error + matrix" where
  "column_stack cs =
     (case cs of
        [] \<Rightarrow> Inl ValueError
      | c # _ \<Rightarrow>
          if \<forall>d \<in> set cs. length d = length c
          then Inr (Matrix (length cs) (cols (length c) cs))
          else Inl ValueError)"

subsection \<open>Matrix inversion\<close>

text \<open>
  \<^verbatim>\<open>np.linalg.inv\<close> is library code. It is modelled in exact arithmetic by Gauss-Jordan
  elimination on the rows of the matrix augmented with the identity: for each column a
  row with a non-zero entry is chosen as pivot row and scaled, and the column is cleared
  from every other row. When no pivot exists the matrix is singular and numpy raises
  \<^verbatim>\<open>LinAlgError("Singular matrix")\<close>; a matrix that is not square raises \<^verbatim>\<open>LinAlgError\<close>
  as well. The theorems \<open>linalg_inv_sound\<close> and \<open>linalg_inv_complete\<close> below show
  that the model returns the inverse exactly when there is one, so the choice of pivot
  does not show in the result.
\<close>

type_synonym arow = "vec \<times> vec"

definition scale_row :: "real \<Rightarrow> arow \<Rightarrow> arow" where
  "scale_row a x = (smul a (fst x), smul a (snd x))"

definition sub_row :: "real \<Rightarrow> arow \<Rightarrow> arow \<Rightarrow> arow" where
  "sub_row a q x = (vsub (fst x) (smul a (fst q)), vsub (snd x) (smul a (snd q)))"

definition eliminate :: "nat \<Rightarrow> arow \<Rightarrow> arow \<Rightarrow> arow" where
  "eliminate k q x = sub_row (fst x ! k) q x"

fun gauss_jordan :: "nat \<Rightarrow> arow list \<Rightarrow> arow list \<Rightarrow> arow list option" where
  "gauss_jordan 0 piv rest = Some piv"
| "gauss_jordan (Suc m) piv rest =
     (let k = length piv in
      case dropWhile (\<lambda>x. fst x ! k = 0) rest of
        [] \<Rightarrow> None
      | p # post \<Rightarrow>
          (let pre = takeWhile (\<lambda>x. fst x ! k = 0) rest;
               q = scale_row (1 / fst p ! k) p
           in gauss_jordan m (map (eliminate k q) piv @ [q]) (map (eliminate k q) (pre @ post))))"

definition linalg_inv :: "matrix \<Rightarrow> py_error + matrix" where
  "linalg_inv A =
     (if nrows A \<noteq> ncols A then Inl LinAlgError_not_square
      else case gauss_jordan (nrows A) [] (zip (rows A) (rows (eye (nrows A)))) of
             None \<Rightarrow> Inl LinAlgError_singular
           | Some res \<Rightarrow> Inr (Matrix (nrows A) (map snd res)))"

section \<open>Linear least squares\<close>

text \<open>
  \<^verbatim>\<open>
  def design_matrix(funcs, x):
      return np.column_stack([f(x) for f in funcs])
  \<close>
  A basis function is called once, on the whole array \<^verbatim>\<open>x\<close>, and returns an array.
\<close>

definition design_matrix :: "(vec \<Rightarrow> vec) list \<Rightarrow> vec \<Rightarrow> py_error + matrix" where
  "design_matrix funcs x = column_stack (map (\<lambda>f. f x) funcs)"

text \<open>\<^verbatim>\<open>np.ones_like\<close>, the first basis function of the notebook's \<^verbatim>\<open>funcs\<close>.\<close>

definition ones_like :: "vec \<Rightarrow> vec" where
  "ones_like x = map (\<lambda>_. 1) x"

text \<open>
  \<^verbatim>\<open>
  def solve_linear_least_squares(A, W, y):
      cov = np.linalg.inv(A.T @ W @ A)
      parameters = cov @ A.T @ W @ y
      return parameters, cov
  \<close>
  \<^verbatim>\<open>@\<close> associates to the left.
\<close>

definition solve_linear_least_squares ::
  "matrix \<Rightarrow> matrix \<Rightarrow> vec \<Rightarrow> py_error + (vec \<times> matrix)" where
  "solve_linear_least_squares A W y =
     ebind (matmul (transpose_m A) W) (\<lambda>AtW.
     ebind (matmul AtW A) (\<lambda>AtWA.
     ebind (linalg_inv AtWA) (\<lambda>cov.
     ebind (matmul cov (transpose_m A)) (\<lambda>cA.
     ebind (matmul cA W) (\<lambda>cAW.
     ebind (matvec cAW y) (\<lambda>parameters.
     Inr (parameters, cov)))))))"

text \<open>
  The quotient \<^verbatim>\<open>sum_residuals / ndf\<close> divides a numpy float64 by a Python int. numpy
  does not raise on a zero divisor: it warns and returns \<open>inf\<close>, \<open>-inf\<close> or \<open>nan\<close>. Only
  this quotient is given the non-finite values of a float.
\<close>

datatype np_float = Finite real | PosInf | NegInf | NaN

definition true_divide :: "real \<Rightarrow> int \<Rightarrow> np_float" where
  "true_divide s d =
     (if d = 0 then (if 0 < s then PosInf else if s < 0 then NegInf else NaN)
      else Finite (s / of_int d))"

fun is_finite :: "np_float \<Rightarrow> bool" where
  "is_finite (Finite _) = True"
| "is_finite _ = False"

text \<open>
  \<^verbatim>\<open>
  def chisquare_over_ndf(y, A, parameters):
      residuals = (y - A @ parameters)
      sum_residuals = (residuals.T @ W @ residuals)
      ndf = len(y) - len(parameters)
      return sum_residuals / ndf
  \<close>
  \<^verbatim>\<open>W\<close> is not a parameter of the function: it is the module-level variable of the
  notebook, read when the function runs. The model passes it as the first argument
  \<open>W_global\<close>.
\<close>

definition chisquare_over_ndf :: "matrix \<Rightarrow> vec \<Rightarrow> matrix \<Rightarrow> vec \<Rightarrow> py_error + np_float" where
  "chisquare_over_ndf W_global y A parameters =
     ebind (matvec A parameters) (\<lambda>Ap.
     ebind (vec_sub y Ap) (\<lambda>residuals.
     ebind (vecmat residuals W_global) (\<lambda>rW.
     ebind (vecdot rW residuals) (\<lambda>sum_residuals.
     (let ndf = int (length y) - int (length parameters)
      in Inr (true_divide sum_residuals ndf))))))"

text \<open>
  \<^verbatim>\<open>
  def linear_least_squares(x, y, funcs, cov_y=None):
      A = design_matrix(funcs, x)
      if cov_y is not None:
          W = np.linalg.inv(cov_y)
      else:
          W = np.eye(len(y))
      parameters, cov = solve_linear_least_squares(A, W, y)
      chisquare_ndf = chisquare_over_ndf(y, A, parameters)
      return parameters, cov, chisquare_ndf
  \<close>
  The local \<^verbatim>\<open>W\<close> goes to the solver; \<^verbatim>\<open>chisquare_over_ndf\<close> is called without it and
  reads the module-level \<^verbatim>\<open>W\<close>.
\<close>

definition linear_least_squares ::
  "matrix \<Rightarrow> vec \<Rightarrow> vec \<Rightarrow> (vec \<Rightarrow> vec) list \<Rightarrow> matrix option \<Rightarrow>
   py_error + (vec \<times> matrix \<times> np_float)" where
  "linear_least_squares W_global x y funcs cov_y =
     ebind (design_matrix funcs x) (\<lambda>A.
     ebind (case cov_y of Some c \<Rightarrow> linalg_inv c | None \<Rightarrow> Inr (eye (length y))) (\<lambda>W.
     ebind (solve_linear_least_squares A W y) (\<lambda>(parameters, cov).
     ebind (chisquare_over_ndf W_global y A parameters) (\<lambda>chisquare_ndf.
     Inr (parameters, cov, chisquare_ndf)))))"

text \<open>
  The quantities the specification names: the matrix \<open>A\<^sup>T W A\<close>, the weighted sum of
  squared residuals \<open>(y - A \<theta>)\<^sup>T W (y - A \<theta>)\<close>, an inverse, and a symmetric
  positive-definite weight matrix.
\<close>

definition normal_matrix :: "matrix \<Rightarrow> matrix \<Rightarrow> py_error + matrix" where
  "normal_matrix A W = ebind (matmul (transpose_m A) W) (\<lambda>AtW. matmul AtW A)"

definition weighted_ssr :: "matrix \<Rightarrow> matrix \<Rightarrow> vec \<Rightarrow> vec \<Rightarrow> real" where
  "weighted_ssr A W y \<theta> =
     (let r = vsub y (mv (rows A) \<theta>) in dot r (mv (rows W) r))"

definition is_inverse :: "matrix \<Rightarrow> matrix \<Rightarrow> bool" where
  "is_inverse C M \<longleftrightarrow>
     has_shape (nrows M) (nrows M) C \<and>
     matmul C M = Inr (eye (nrows M)) \<and> matmul M C = Inr (eye (nrows M))"

definition invertible :: "matrix \<Rightarrow> bool" where
  "invertible M \<longleftrightarrow> (\<exists>C. is_inverse C M)"

definition symmetric_posdef :: "matrix \<Rightarrow> bool" where
  "symmetric_posdef W \<longleftrightarrow>
     transpose_m W = W \<and>
     (\<forall>v. length v = nrows W \<and> v \<noteq> replicate (nrows W) 0 \<longrightarrow> 0 < dot v (mv (rows W) v))"


section \<open>Unbinned likelihood fit\<close>

subsection \<open>Arithmetic on float64 values that are not numbers\<close>

text \<open>
  The density and the likelihood are computed in float64, where a division by zero gives
  \<open>inf\<close> or \<open>nan\<close>, \<open>inf * 0\<close> is \<open>nan\<close>, the logarithm of zero is \<open>-inf\<close> and that of a
  negative number is \<open>nan\<close>. These values decide whether the likelihood is defined, so the
  model of the density and of the likelihood computes with \<open>np_float\<close>. Finite results are
  exact reals (no rounding), with one exception: \<^verbatim>\<open>np.exp\<close> underflows. The smallest
  positive float64 is \<open>2\<^sup>-\<^sup>1\<^sup>0\<^sup>7\<^sup>4\<close>; a result of at most half of it rounds to \<open>0.0\<close>, and
  this zero is what the code then divides by. Parameters and observations are finite.
\<close>

fun finite_value :: "np_float \<Rightarrow> real" where
  "finite_value (Finite v) = v"
| "finite_value _ = 0"

fun np_add :: "np_float \<Rightarrow> np_float \<Rightarrow> np_float" where
  "np_add NaN _ = NaN"
| "np_add _ NaN = NaN"
| "np_add (Finite a) (Finite b) = Finite (a + b)"
| "np_add (Finite a) PosInf = PosInf"
| "np_add (Finite a) NegInf = NegInf"
| "np_add PosInf (Finite b) = PosInf"
| "np_add NegInf (Finite b) = NegInf"
| "np_add PosInf PosInf = PosInf"
| "np_add NegInf NegInf = NegInf"
| "np_add PosInf NegInf = NaN"
| "np_add NegInf PosInf = NaN"

fun np_neg :: "np_float \<Rightarrow> np_float" where
  "np_neg (Finite a) = Finite (- a)"
| "np_neg PosInf = NegInf"
| "np_neg NegInf = PosInf"
| "np_neg NaN = NaN"

text \<open>The product of an infinity and a finite number has the sign of the product; with zero it is \<open>nan\<close>.\<close>

definition signed_inf :: "real \<Rightarrow> np_float" where
  "signed_inf s = (if 0 < s then PosInf else if s < 0 then NegInf else NaN)"

fun np_mul :: "np_float \<Rightarrow> np_float \<Rightarrow> np_float" where
  "np_mul NaN _ = NaN"
| "np_mul _ NaN = NaN"
| "np_mul (Finite a) (Finite b) = Finite (a * b)"
| "np_mul (Finite a) PosInf = signed_inf a"
| "np_mul (Finite a) NegInf = signed_inf (- a)"
| "np_mul PosInf (Finite b) = signed_inf b"
| "np_mul NegInf (Finite b) = signed_inf (- b)"
| "np_mul PosInf PosInf = PosInf"
| "np_mul NegInf NegInf = PosInf"
| "np_mul PosInf NegInf = NegInf"
| "np_mul NegInf PosInf = NegInf"

text \<open>The quotient of two finite numbers; the divisor \<open>0\<close> is the positive zero that a difference of equal numbers gives.\<close>

definition np_divide :: "real \<Rightarrow> real \<Rightarrow> np_float" where
  "np_divide a b = (if b = 0 then signed_inf a else Finite (a / b))"

fun np_log :: "np_float \<Rightarrow> np_float" where
  "np_log (Finite a) = (if 0 < a then Finite (ln a) else if a = 0 then NegInf else NaN)"
| "np_log PosInf = PosInf"
| "np_log NegInf = NaN"
| "np_log NaN = NaN"

text \<open>\<^verbatim>\<open>np.sum\<close>\<close>

definition np_sum :: "np_float list \<Rightarrow> np_float" where
  "np_sum xs = foldr np_add xs (Finite 0)"

text \<open>\<^verbatim>\<open>np.exp\<close> and the \<open>exp\<close> inside scipy's exponential density, with underflow.\<close>

definition np_exp :: "real \<Rightarrow> real" where
  "np_exp x = (if exp x \<le> 1 / 2 ^ 1075 then 0 else exp x)"

subsection \<open>The distributions of \<^verbatim>\<open>scipy.stats\<close>\<close>

text \<open>
  \<^verbatim>\<open>norm.pdf(x, mean, std)\<close> and \<^verbatim>\<open>expon.pdf(x, scale=tau)\<close>. scipy standardises the
  argument to \<open>(x - loc) / scale\<close> and returns \<open>nan\<close> for a scale that is not positive; the
  exponential density is zero left of the origin. \<open>gauss\<close> is the value of the normal
  density for a positive scale. An underflow of the normal density only replaces a
  number below \<open>2\<^sup>-\<^sup>1\<^sup>0\<^sup>7\<^sup>4\<close> by zero in a sum, so it is left exact.
\<close>

definition gauss :: "real \<Rightarrow> real \<Rightarrow> real \<Rightarrow> real" where
  "gauss x mean std = exp (- ((x - mean) / std)\<^sup>2 / 2) / sqrt (2 * pi) / std"

definition norm_pdf :: "real \<Rightarrow> real \<Rightarrow> real \<Rightarrow> np_float" where
  "norm_pdf x mean std = (if 0 < std then Finite (gauss x mean std) else NaN)"

definition expon_pdf :: "real \<Rightarrow> real \<Rightarrow> np_float" where
  "expon_pdf x tau =
     (if 0 < tau then Finite (if x / tau < 0 then 0 else np_exp (- (x / tau)) / tau) else NaN)"

text \<open>
  \<^verbatim>\<open>expon.cdf(x, scale=tau)\<close> and \<^verbatim>\<open>uniform.cdf(x, loc, scale)\<close>, for a positive scale: the
  uniform distribution lives on \<open>[loc, loc + scale]\<close>. The theorems about these two
  functions assume a positive scale.
\<close>

definition expon_cdf :: "real \<Rightarrow> real \<Rightarrow> real" where
  "expon_cdf x tau = (if x / tau < 0 then 0 else 1 - exp (- (x / tau)))"

definition uniform_cdf :: "real \<Rightarrow> real \<Rightarrow> real \<Rightarrow> real" where
  "uniform_cdf x loc scale =
     (let y = (x - loc) / scale in if y < 0 then 0 else if 1 < y then 1 else y)"

subsection \<open>Density and likelihood\<close>

definition E_MIN :: real where
  "E_MIN = 75"

definition E_MAX :: real where
  "E_MAX = 175"

text \<open>
  \<^verbatim>\<open>
  def pdf(x, mean, std, tau, p):
      mass_peak = p * norm.pdf(x, mean, std)
      expon_norm = np.exp(-E_MIN / tau) - np.exp(-E_MAX / tau)
      background = (1 - p)  / expon_norm * expon.pdf(x, scale=tau)
      return mass_peak + background
  \<close>
  For \<open>tau \<le> 0\<close> the exponential density is \<open>nan\<close>, and so are \<^verbatim>\<open>background\<close> and the
  result, whatever \<^verbatim>\<open>expon_norm\<close> is: \<^verbatim>\<open>expon_norm\<close> has to be right for positive \<open>tau\<close>
  only, where both exponents are negative.
\<close>

definition pdf :: "real \<Rightarrow> real \<Rightarrow> real \<Rightarrow> real \<Rightarrow> real \<Rightarrow> np_float" where
  "pdf x mean std tau p =
     (let mass_peak = np_mul (Finite p) (norm_pdf x mean std);
          expon_norm = np_exp (- E_MIN / tau) - np_exp (- E_MAX / tau);
          background = np_mul (np_divide (1 - p) expon_norm) (expon_pdf x tau)
      in np_add mass_peak background)"

text \<open>
  \<^verbatim>\<open>
  def neg_log_likelihood(parameters, data):
      # we add an epsilon to avoid inf in case of p=0
      return -np.sum(np.log(pdf(data, *parameters) + 1e-30))
  \<close>
  \<^verbatim>\<open>pdf\<close> is applied to every element of \<^verbatim>\<open>data\<close>; unpacking a parameter sequence that
  does not have four elements raises \<^verbatim>\<open>TypeError\<close>.
\<close>

definition neg_log_likelihood :: "vec \<Rightarrow> vec \<Rightarrow> py_error + np_float" where
  "neg_log_likelihood parameters data =
     (case parameters of
        [mean, std, tau, p] \<Rightarrow>
          Inr (np_neg (np_sum (map (\<lambda>x. np_log (np_add (pdf x mean std tau p) (Finite (1 / 10 ^ 30)))) data)))
      | _ \<Rightarrow> Inl TypeError)"

text \<open>
  The fit itself is a sequence of notebook cells:
  \<^verbatim>\<open>
  result = minimize(neg_log_likelihood, args=(measured, ), x0=[130, 2, 30, 0.2],
                    bounds=[(0, None), (eps, None), (eps, None), (0, 1)])
  hesse = Hessian(neg_log_likelihood)
  cov = np.linalg.inv(hesse(result.x, measured))
  higgs_mass = result.x[0]
  \<close>
  \<^verbatim>\<open>scipy.optimize.minimize\<close> and \<^verbatim>\<open>numdifftools.Hessian\<close> are library routines and
  parameters of the model. \<^verbatim>\<open>minimize\<close> returns an \<^verbatim>\<open>OptimizeResult\<close>, of which the
  fields \<^verbatim>\<open>x\<close> (the last iterate) and \<^verbatim>\<open>success\<close> (whether the iteration converged) are
  kept as \<open>result_x\<close> and \<open>result_success\<close>; a bound is a pair of optional numbers.
\<close>

record optimize_result =
  result_x :: vec
  result_success :: bool

type_synonym objective = "vec \<Rightarrow> py_error + np_float"

type_synonym bounds = "(real option \<times> real option) list"

type_synonym minimizer = "objective \<Rightarrow> vec \<Rightarrow> bounds \<Rightarrow> py_error + optimize_result"

type_synonym hessian = "objective \<Rightarrow> vec \<Rightarrow> matrix"

definition float_eps :: real where
  "float_eps = 1 / 2 ^ 52"

definition unbinned_fit :: "minimizer \<Rightarrow> hessian \<Rightarrow> vec \<Rightarrow> py_error + (vec \<times> matrix)" where
  "unbinned_fit minimize Hessian measured =
     ebind (minimize (\<lambda>parameters. neg_log_likelihood parameters measured)
              [130, 2, 30, 0.2]
              [(Some 0, None), (Some float_eps, None), (Some float_eps, None), (Some 0, Some 1)])
       (\<lambda>result.
     ebind (linalg_inv (Hessian (\<lambda>parameters. neg_log_likelihood parameters measured) (result_x result)))
       (\<lambda>cov.
     Inr (result_x result, cov)))"

section \<open>Binned likelihood fit\<close>

text \<open>
  \<^verbatim>\<open>
  N = np.genfromtxt("resources/muon_data.txt")
  t = np.arange(len(N) + 1) / 21.48
  t = t[5:]
  N = N[5:]
  T_MIN, T_MAX = t[0], t[-1]
  \<close>
  The data file is not part of the sources; the number \<open>n\<close> of counts it holds is a
  parameter. With at least five counts \<^verbatim>\<open>t[0]\<close> is \<open>5 / 21.48\<close> and \<^verbatim>\<open>t[-1]\<close> is
  \<open>n / 21.48\<close>.
\<close>

definition T_MIN :: real where
  "T_MIN = 5 / 21.48"

definition T_MAX :: "nat \<Rightarrow> real" where
  "T_MAX n = real n / 21.48"

text \<open>
  \<^verbatim>\<open>
  def cdf(x, tau, p):
      # normalize to 1 in histogram range
      cdf_min, cdf_max = expon.cdf([T_MIN, T_MAX], scale=tau)
      norm = 1 / (cdf_max - cdf_min)
      signal = p * expon.cdf(x, scale=tau) * norm
      background = (1 - p) * uniform.cdf(x, T_MIN, T_MAX)
      # combine exponential signal with uniform background
      return signal + background
  \<close>
  The positional arguments of \<^verbatim>\<open>uniform.cdf\<close> are \<^verbatim>\<open>loc\<close> and \<^verbatim>\<open>scale\<close>. The theorems
  about \<open>cdf\<close> take \<open>tau > 0\<close> and \<open>n > 5\<close>, where no divisor is zero.
\<close>

definition cdf :: "nat \<Rightarrow> real \<Rightarrow> real \<Rightarrow> real \<Rightarrow> real" where
  "cdf n x tau p =
     (let cdf_min = expon_cdf T_MIN tau;
          cdf_max = expon_cdf (T_MAX n) tau;
          norm = 1 / (cdf_max - cdf_min);
          signal = p * expon_cdf x tau * norm;
          background = (1 - p) * uniform_cdf x T_MIN (T_MAX n)
      in signal + background)"

text \<open>
  A function \<open>f\<close> integrates to \<open>v\<close> over \<open>[a, b]\<close> when it has an antiderivative on the
  interval that grows by \<open>v\<close> (the fundamental theorem of calculus).
\<close>

definition integrates_to :: "(real \<Rightarrow> real) \<Rightarrow> real \<Rightarrow> real \<Rightarrow> real \<Rightarrow> bool" where
  "integrates_to f a b v \<longleftrightarrow>
     (\<exists>F. (\<forall>x. a \<le> x \<and> x \<le> b \<longrightarrow> (F has_real_derivative f x) (at x)) \<and> F b - F a = v)"

section \<open>Linear algebra on lists\<close>

subsection \<open>Dot product, matrix-vector product and transposition\<close>

lemma dot_sum: "length u = length v \<Longrightarrow> dot u v = (\<Sum>i<length u. u ! i * v ! i)"
  unfolding dot_def
  by (simp add: sum_list_sum_nth atLeast0LessThan)

lemma length_vadd [simp]: "length (vadd u v) = min (length u) (length v)"
  by (simp add: vadd_def)

lemma length_vsub [simp]: "length (vsub u v) = min (length u) (length v)"
  by (simp add: vsub_def)

lemma length_smul [simp]: "length (smul a v) = length v"
  by (simp add: smul_def)

lemma length_mv [simp]: "length (mv M v) = length M"
  by (simp add: mv_def)

lemma length_unit_vec [simp]: "length (unit_vec n i) = n"
  by (simp add: unit_vec_def)

lemma length_cols [simp]: "length (cols m M) = m"
  by (simp add: cols_def)

lemma nth_vadd [simp]: "i < length u \<Longrightarrow> i < length v \<Longrightarrow> vadd u v ! i = u ! i + v ! i"
  by (simp add: vadd_def)

lemma nth_vsub [simp]: "i < length u \<Longrightarrow> i < length v \<Longrightarrow> vsub u v ! i = u ! i - v ! i"
  by (simp add: vsub_def)

lemma nth_smul [simp]: "i < length v \<Longrightarrow> smul a v ! i = a * v ! i"
  by (simp add: smul_def)

lemma nth_mv [simp]: "i < length M \<Longrightarrow> mv M v ! i = dot (M ! i) v"
  by (simp add: mv_def)

lemma nth_unit_vec [simp]: "j < n \<Longrightarrow> unit_vec n i ! j = (if j = i then 1 else 0)"
  by (simp add: unit_vec_def)

lemma nth_cols [simp]: "j < m \<Longrightarrow> i < length M \<Longrightarrow> cols m M ! j ! i = M ! i ! j"
  by (simp add: cols_def)

lemma length_nth_cols [simp]: "j < m \<Longrightarrow> length (cols m M ! j) = length M"
  by (simp add: cols_def)

lemma dot_commute: "length u = length v \<Longrightarrow> dot u v = dot v u"
  by (simp add: dot_sum mult.commute)

lemma dot_vadd_right:
  "length u = n \<Longrightarrow> length v = n \<Longrightarrow> length w = n \<Longrightarrow>
   dot u (vadd v w) = dot u v + dot u w"
  by (simp add: dot_sum algebra_simps sum.distrib)

lemma dot_vsub_right:
  "length u = n \<Longrightarrow> length v = n \<Longrightarrow> length w = n \<Longrightarrow>
   dot u (vsub v w) = dot u v - dot u w"
  by (simp add: dot_sum algebra_simps sum_subtractf)

lemma dot_smul_right:
  "length u = n \<Longrightarrow> length v = n \<Longrightarrow> dot u (smul a v) = a * dot u v"
  by (simp add: dot_sum algebra_simps sum_distrib_left)

lemma dot_zero_right: "length u = n \<Longrightarrow> dot u (replicate n 0) = 0"
  by (simp add: dot_sum)

lemma dot_unit_right: "length u = n \<Longrightarrow> i < n \<Longrightarrow> dot u (unit_vec n i) = u ! i"
  by (simp add: dot_sum if_distrib[of "\<lambda>x. _ * x"] sum.delta cong: if_cong)

lemma rect_nth: "rect n m M \<Longrightarrow> i < n \<Longrightarrow> length (M ! i) = m"
  by (simp add: rect_def)

lemma rect_cols: "rect n m M \<Longrightarrow> rect m n (cols m M)"
  by (auto simp: rect_def cols_def)

lemma mv_vadd:
  "rect n m M \<Longrightarrow> length u = m \<Longrightarrow> length v = m \<Longrightarrow> mv M (vadd u v) = vadd (mv M u) (mv M v)"
  by (rule nth_equalityI) (auto simp: rect_def dot_vadd_right)

lemma mv_vsub:
  "rect n m M \<Longrightarrow> length u = m \<Longrightarrow> length v = m \<Longrightarrow> mv M (vsub u v) = vsub (mv M u) (mv M v)"
  by (rule nth_equalityI) (auto simp: rect_def dot_vsub_right)

lemma mv_smul:
  "rect n m M \<Longrightarrow> length u = m \<Longrightarrow> mv M (smul a u) = smul a (mv M u)"
  by (rule nth_equalityI) (auto simp: rect_def dot_smul_right)

lemma mv_zero: "rect n m M \<Longrightarrow> mv M (replicate m 0) = replicate n 0"
  by (rule nth_equalityI) (auto simp: rect_def dot_zero_right)

lemma mv_unit: "rect n m M \<Longrightarrow> i < m \<Longrightarrow> mv M (unit_vec m i) = cols m M ! i"
  by (rule nth_equalityI) (auto simp: rect_def dot_unit_right)

lemma dot_mv_adjoint:
  assumes "rect n m M" "length x = m" "length y = n"
  shows "dot (mv M x) y = dot x (mv (cols m M) y)"
proof -
  have "dot (mv M x) y = (\<Sum>i<n. (\<Sum>j<m. M ! i ! j * x ! j) * y ! i)"
    using assms by (simp add: dot_sum rect_def)
  also have "\<dots> = (\<Sum>i<n. \<Sum>j<m. x ! j * (M ! i ! j * y ! i))"
    by (intro sum.cong refl) (simp add: sum_distrib_left sum_distrib_right mult_ac)
  also have "\<dots> = (\<Sum>j<m. \<Sum>i<n. x ! j * (M ! i ! j * y ! i))"
    by (rule sum.swap)
  also have "\<dots> = dot x (mv (cols m M) y)"
    using assms by (simp add: dot_sum rect_def sum_distrib_left)
  finally show ?thesis .
qed

lemma cols_cols: "rect n m M \<Longrightarrow> cols n (cols m M) = M"
  by (rule nth_equalityI) (auto simp: rect_def intro!: nth_equalityI)

lemma mv_mv:
  assumes "rect n m A" "rect m k B" "length x = k"
  shows "mv (map (mv (cols k B)) A) x = mv A (mv B x)"
proof (rule nth_equalityI)
  show "length (mv (map (mv (cols k B)) A) x) = length (mv A (mv B x))" by simp
next
  fix i assume "i < length (mv (map (mv (cols k B)) A) x)"
  then have i: "i < n" using assms by (simp add: rect_def)
  have len: "length (A ! i) = m" using assms i by (simp add: rect_def)
  have "dot (mv (cols k B) (A ! i)) x = dot (A ! i) (mv (cols m (cols k B)) x)"
    using dot_mv_adjoint[OF rect_cols[OF assms(2)] len assms(3)] .
  also have "\<dots> = dot (A ! i) (mv B x)"
    using assms(2) by (simp add: cols_cols)
  finally show "mv (map (mv (cols k B)) A) x ! i = mv A (mv B x) ! i"
    using i assms by (simp add: rect_def)
qed

subsection \<open>Gauss-Jordan elimination computes the inverse\<close>

text \<open>
  The span of a list of rows, the relation \<open>rel\<close> that ties the two halves of an augmented
  row (\<open>fst x\<close> is \<open>snd x\<close> times the matrix being inverted), the shape of the left halves
  after \<open>length piv\<close> columns, and the invariant of the elimination.
\<close>

inductive_set span :: "nat \<Rightarrow> vec list \<Rightarrow> vec set" for n :: nat and S :: "vec list" where
  zero: "replicate n 0 \<in> span n S"
| add: "v \<in> span n S \<Longrightarrow> r \<in> set S \<Longrightarrow> vadd v (smul a r) \<in> span n S"

lemma span_length:
  assumes "\<forall>r \<in> set S. length r = n" "v \<in> span n S"
  shows "length v = n"
  using assms(2) assms(1) by induction auto

lemma vadd_zero_left: "length r = n \<Longrightarrow> vadd (replicate n 0) r = r"
  by (rule nth_equalityI) auto

lemma smul_one: "smul 1 r = r"
  by (rule nth_equalityI) auto

lemma span_base:
  assumes "\<forall>r \<in> set S. length r = n" "r \<in> set S"
  shows "r \<in> span n S"
proof -
  have "vadd (replicate n 0) (smul 1 r) \<in> span n S"
    by (rule span.add[OF span.zero assms(2)])
  then show ?thesis using assms by (simp add: smul_one vadd_zero_left)
qed

lemma span_closed:
  assumes len: "\<forall>r \<in> set S. length r = n"
    and w: "w \<in> span n S" and u: "u \<in> span n S"
  shows "vadd u (smul a w) \<in> span n S"
  using w u
proof (induction arbitrary: u)
  case zero
  have "length u = n" using span_length[OF len zero] .
  then have "vadd u (smul a (replicate n 0)) = u"
    by (intro nth_equalityI) auto
  then show ?case using zero by simp
next
  case (add v r b)
  have lu: "length u = n" using span_length[OF len add.prems] .
  have lv: "length v = n" using span_length[OF len add.hyps(1)] .
  have lr: "length r = n" using len add.hyps(2) by simp
  have "vadd (vadd u (smul a v)) (smul (a * b) r) \<in> span n S"
    by (rule span.add[OF add.IH[OF add.prems] add.hyps(2)])
  moreover have "vadd (vadd u (smul a v)) (smul (a * b) r) = vadd u (smul a (vadd v (smul b r)))"
    using lu lv lr by (intro nth_equalityI) (auto simp: algebra_simps)
  ultimately show ?case by simp
qed

lemma span_subset:
  assumes len': "\<forall>r \<in> set S'. length r = n"
    and sub: "set S \<subseteq> span n S'" and v: "v \<in> span n S"
  shows "v \<in> span n S'"
  using v
proof induction
  case zero
  show ?case by (rule span.zero)
next
  case (add v r a)
  have "r \<in> span n S'" using add.hyps(2) sub by auto
  then show ?case using span_closed[OF len' _ add.IH] by simp
qed

definition rel :: "nat \<Rightarrow> vec list \<Rightarrow> arow \<Rightarrow> bool" where
  "rel n Mt x \<longleftrightarrow> length (snd x) = n \<and> fst x = mv Mt (snd x)"

lemma rel_scale: "rect n n Mt \<Longrightarrow> rel n Mt x \<Longrightarrow> rel n Mt (scale_row a x)"
  by (simp add: rel_def scale_row_def mv_smul)

lemma rel_sub: "rect n n Mt \<Longrightarrow> rel n Mt q \<Longrightarrow> rel n Mt x \<Longrightarrow> rel n Mt (sub_row a q x)"
  by (simp add: rel_def sub_row_def mv_smul mv_vsub)

lemma rel_length_fst: "rect n n Mt \<Longrightarrow> rel n Mt x \<Longrightarrow> length (fst x) = n"
  by (simp add: rel_def rect_def)

definition shape :: "arow list \<Rightarrow> arow list \<Rightarrow> bool" where
  "shape piv rest \<longleftrightarrow>
     (\<forall>j<length piv. \<forall>i<length piv. fst (piv ! j) ! i = (if i = j then 1 else 0)) \<and>
     (\<forall>x \<in> set rest. \<forall>i<length piv. fst x ! i = 0)"

definition gj_inv :: "nat \<Rightarrow> vec list \<Rightarrow> arow list \<Rightarrow> arow list \<Rightarrow> bool" where
  "gj_inv n Mt piv rest \<longleftrightarrow>
     length piv + length rest = n \<and>
     (\<forall>x \<in> set (piv @ rest). rel n Mt x) \<and>
     shape piv rest \<and>
     (\<forall>i<n. unit_vec n i \<in> span n (map snd (piv @ rest)))"

lemma pivot_split:
  assumes "dropWhile (\<lambda>x. fst x ! k = 0) rest = p # post"
  shows "rest = takeWhile (\<lambda>x. fst x ! k = 0) rest @ p # post" "fst p ! k \<noteq> 0"
proof -
  show "rest = takeWhile (\<lambda>x. fst x ! k = 0) rest @ p # post"
    using takeWhile_dropWhile_id[of "\<lambda>x. fst x ! k = 0" rest] assms by simp
  show "fst p ! k \<noteq> 0"
    using hd_dropWhile[of "\<lambda>x. fst x ! k = 0" rest] assms by auto
qed

lemma shape_step:
  assumes sh: "shape piv rest"
    and k: "k = length piv" "k < n"
    and len: "\<forall>x \<in> set (piv @ rest). length (fst x) = n"
    and rest: "rest = pre @ p # post"
    and c: "fst p ! k \<noteq> 0"
    and q: "q = scale_row (1 / fst p ! k) p"
  shows "shape (map (eliminate k q) piv @ [q]) (map (eliminate k q) (pre @ post))"
proof -
  have lp: "length (fst p) = n" using len rest by simp
  have qk: "fst q ! k = 1" using c lp k by (simp add: q scale_row_def)
  have q0: "\<And>i. i < k \<Longrightarrow> fst q ! i = 0"
    using sh rest lp k by (simp add: q scale_row_def shape_def)
  have lq: "length (fst q) = n" using lp by (simp add: q scale_row_def)
  have el: "\<And>x i. length (fst x) = n \<Longrightarrow> i < n \<Longrightarrow>
      fst (eliminate k q x) ! i = fst x ! i - fst x ! k * fst q ! i"
    using lq by (simp add: eliminate_def sub_row_def)
  have piv_len: "\<And>j. j < k \<Longrightarrow> length (fst (piv ! j)) = n"
    using len k by simp
  have a: "\<forall>j<Suc k. \<forall>i<Suc k.
      fst ((map (eliminate k q) piv @ [q]) ! j) ! i = (if i = j then 1 else 0)"
  proof (intro allI impI)
    fix j i assume j: "j < Suc k" and i: "i < Suc k"
    show "fst ((map (eliminate k q) piv @ [q]) ! j) ! i = (if i = j then 1 else 0)"
    proof (cases "j < k")
      case True
      then have "(map (eliminate k q) piv @ [q]) ! j = eliminate k q (piv ! j)"
        using k by (simp add: nth_append)
      moreover have "fst (eliminate k q (piv ! j)) ! i = (if i = j then 1 else 0)"
      proof (cases "i < k")
        case it: True
        then show ?thesis
          using el[OF piv_len[OF True], of i] k q0[OF it] sh True
          by (simp add: shape_def)
      next
        case False
        then have "i = k" using i by simp
        then show ?thesis
          using el[OF piv_len[OF True], of k] k qk True by simp
      qed
      ultimately show ?thesis by simp
    next
      case False
      then have jk: "j = k" using j by simp
      then have "(map (eliminate k q) piv @ [q]) ! j = q"
        using k by (simp add: nth_append)
      then show ?thesis using qk q0 i jk by (cases "i < k") (auto simp: less_Suc_eq)
    qed
  qed
  have b: "\<forall>x \<in> set (map (eliminate k q) (pre @ post)). \<forall>i<Suc k. fst x ! i = 0"
  proof (intro ballI allI impI)
    fix x i assume x: "x \<in> set (map (eliminate k q) (pre @ post))" and i: "i < Suc k"
    then obtain y where y: "y \<in> set rest" "x = eliminate k q y"
      using rest by auto
    have ly: "length (fst y) = n" using len y by simp
    have y0: "\<And>i. i < k \<Longrightarrow> fst y ! i = 0" using sh y k by (simp add: shape_def)
    show "fst x ! i = 0"
    proof (cases "i < k")
      case True
      then show ?thesis using el[OF ly, of i] k y0[OF True] q0[OF True] y by simp
    next
      case False
      then have "i = k" using i by simp
      then show ?thesis using el[OF ly, of k] k qk y by simp
    qed
  qed
  show ?thesis unfolding shape_def using a b k by simp
qed

lemma span_step:
  assumes len: "\<forall>x \<in> set (piv @ rest). length (snd x) = n"
    and rest: "rest = pre @ p # post"
    and c: "fst p ! k \<noteq> 0"
    and q: "q = scale_row (1 / fst p ! k) p"
    and v: "v \<in> span n (map snd (piv @ rest))"
  shows "v \<in> span n (map snd ((map (eliminate k q) piv @ [q]) @ map (eliminate k q) (pre @ post)))"
proof -
  let ?S' = "map snd ((map (eliminate k q) piv @ [q]) @ map (eliminate k q) (pre @ post))"
  have lp: "length (snd p) = n" using len rest by simp
  have lq: "length (snd q) = n" using lp by (simp add: q scale_row_def)
  have le: "length (snd (eliminate k q x)) = n" if "x \<in> set (piv @ pre @ post)" for x
  proof -
    have "length (snd x) = n" using len rest that by auto
    then show ?thesis using lq by (simp add: eliminate_def sub_row_def)
  qed
  have len': "\<forall>r \<in> set ?S'. length r = n"
  proof
    fix r assume "r \<in> set ?S'"
    then consider "r = snd q" | x where "x \<in> set (piv @ pre @ post)" "r = snd (eliminate k q x)"
      by auto
    then show "length r = n" using lq le by cases auto
  qed
  have qin: "snd q \<in> span n ?S'"
    by (rule span_base[OF len']) simp
  have pin: "snd p \<in> span n ?S'"
  proof -
    have "vadd (replicate n 0) (smul (fst p ! k) (snd q)) \<in> span n ?S'"
      by (rule span.add[OF span.zero]) simp
    moreover have "vadd (replicate n 0) (smul (fst p ! k) (snd q)) = snd p"
      using lp c by (intro nth_equalityI) (auto simp: q scale_row_def)
    ultimately show ?thesis by simp
  qed
  have other: "snd x \<in> span n ?S'" if x: "x \<in> set (piv @ pre @ post)" for x
  proof -
    have lx: "length (snd x) = n" using len rest x by auto
    have "snd (eliminate k q x) \<in> set ?S'" using x by auto
    then have "snd (eliminate k q x) \<in> span n ?S'" by (rule span_base[OF len'])
    then have "vadd (snd (eliminate k q x)) (smul (fst x ! k) (snd q)) \<in> span n ?S'"
      by (rule span.add) simp
    moreover have "vadd (snd (eliminate k q x)) (smul (fst x ! k) (snd q)) = snd x"
      using lx lq by (intro nth_equalityI) (auto simp: eliminate_def sub_row_def)
    ultimately show ?thesis by simp
  qed
  have "set (map snd (piv @ rest)) \<subseteq> span n ?S'"
    using pin other rest by auto
  then show ?thesis using span_subset[OF len' _ v] by simp
qed

lemma gj_inv_step:
  assumes Mt: "rect n n Mt"
    and inv: "gj_inv n Mt piv rest"
    and dw: "dropWhile (\<lambda>x. fst x ! length piv = 0) rest = p # post"
    and q: "q = scale_row (1 / fst p ! length piv) p"
  shows "gj_inv n Mt (map (eliminate (length piv) q) piv @ [q])
           (map (eliminate (length piv) q) (takeWhile (\<lambda>x. fst x ! length piv = 0) rest @ post))"
proof -
  let ?k = "length piv"
  let ?pre = "takeWhile (\<lambda>x. fst x ! ?k = 0) rest"
  have rest: "rest = ?pre @ p # post" and c: "fst p ! ?k \<noteq> 0"
    using pivot_split[OF dw] by auto
  have rels: "\<forall>x \<in> set (piv @ rest). rel n Mt x" using inv by (simp add: gj_inv_def)
  have lens: "\<forall>x \<in> set (piv @ rest). length (snd x) = n" using rels by (simp add: rel_def)
  have lenf: "\<forall>x \<in> set (piv @ rest). length (fst x) = n"
    using rels rel_length_fst[OF Mt] by blast
  have kn: "?k < n"
  proof -
    have "length rest = length ?pre + Suc (length post)" using arg_cong[OF rest, of length] by simp
    then show ?thesis using inv by (simp add: gj_inv_def)
  qed
  have relp: "rel n Mt p" using rels rest by (metis Un_iff in_set_conv_decomp set_append)
  have relq: "rel n Mt q" unfolding q by (rule rel_scale[OF Mt relp])
  have a: "length (map (eliminate ?k q) piv @ [q]) + length (map (eliminate ?k q) (?pre @ post)) = n"
  proof -
    have "length rest = length ?pre + Suc (length post)" using arg_cong[OF rest, of length] by simp
    then show ?thesis using inv by (simp add: gj_inv_def)
  qed
  have b: "\<forall>x \<in> set ((map (eliminate ?k q) piv @ [q]) @ map (eliminate ?k q) (?pre @ post)). rel n Mt x"
  proof
    fix x assume "x \<in> set ((map (eliminate ?k q) piv @ [q]) @ map (eliminate ?k q) (?pre @ post))"
    then consider "x = q" | y where "y \<in> set (piv @ ?pre @ post)" "x = eliminate ?k q y"
      by auto
    then show "rel n Mt x"
    proof cases
      case 1 then show ?thesis using relq by simp
    next
      case 2
      then have "y \<in> set (piv @ rest)" using rest by (metis Un_iff set_append list.set_intros(2))
      then have "rel n Mt y" using rels by blast
      then show ?thesis using 2 rel_sub[OF Mt relq] by (simp add: eliminate_def)
    qed
  qed
  have c': "shape (map (eliminate ?k q) piv @ [q]) (map (eliminate ?k q) (?pre @ post))"
    by (rule shape_step[OF _ refl kn lenf rest c q]) (use inv in \<open>simp add: gj_inv_def\<close>)
  have d: "\<forall>i<n. unit_vec n i \<in> span n (map snd ((map (eliminate ?k q) piv @ [q]) @ map (eliminate ?k q) (?pre @ post)))"
    using span_step[OF lens rest c q] inv by (simp add: gj_inv_def)
  show ?thesis unfolding gj_inv_def using a b c' d by blast
qed

lemma gj_inv_init:
  assumes M: "rect n n M"
  shows "gj_inv n (cols n M) [] (zip M (map (unit_vec n) [0..<n]))"
proof -
  let ?rest = "zip M (map (unit_vec n) [0..<n])"
  have lM: "length M = n" using M by (simp add: rect_def)
  have r: "rel n (cols n M) x" if "x \<in> set ?rest" for x
  proof -
    from that obtain i where i: "i < n" "x = (M ! i, unit_vec n i)"
      using lM by (auto simp: set_zip)
    have "mv (cols n M) (unit_vec n i) = cols n (cols n M) ! i"
      using mv_unit[OF rect_cols[OF M] i(1)] .
    then show ?thesis using i M by (simp add: rel_def cols_cols)
  qed
  have s: "unit_vec n i \<in> span n (map snd ([] @ ?rest))" if "i < n" for i
  proof -
    have "map snd ?rest = map (unit_vec n) [0..<n]" using lM by (simp add: map_snd_zip)
    then show ?thesis using that by (auto intro!: span_base)
  qed
  show ?thesis unfolding gj_inv_def shape_def using lM r s by simp
qed

lemma gj_sound:
  assumes Mt: "rect n n Mt"
  shows "gj_inv n Mt piv rest \<Longrightarrow> length rest = m \<Longrightarrow> gauss_jordan m piv rest = Some res \<Longrightarrow>
         gj_inv n Mt res []"
proof (induction m arbitrary: piv rest)
  case 0
  then show ?case by simp
next
  case (Suc m)
  let ?k = "length piv"
  show ?case
  proof (cases "dropWhile (\<lambda>x. fst x ! ?k = 0) rest")
    case Nil
    have "gauss_jordan (Suc m) piv rest = None" by (simp add: Nil Let_def)
    then show ?thesis using Suc.prems(3) by simp
  next
    case (Cons p post)
    let ?q = "scale_row (1 / fst p ! ?k) p"
    let ?pre = "takeWhile (\<lambda>x. fst x ! ?k = 0) rest"
    have inv': "gj_inv n Mt (map (eliminate ?k ?q) piv @ [?q]) (map (eliminate ?k ?q) (?pre @ post))"
      by (rule gj_inv_step[OF Mt Suc.prems(1) Cons refl])
    have "length rest = length ?pre + Suc (length post)"
      using arg_cong[OF pivot_split(1)[OF Cons], of length] by simp
    then have len': "length (map (eliminate ?k ?q) (?pre @ post)) = m"
      using Suc.prems(2) by simp
    have "gauss_jordan m (map (eliminate ?k ?q) piv @ [?q]) (map (eliminate ?k ?q) (?pre @ post)) = Some res"
      using Suc.prems(3) Cons by (simp add: Let_def)
    then show ?thesis by (rule Suc.IH[OF inv' len'])
  qed
qed

definition left_inverse :: "nat \<Rightarrow> vec list \<Rightarrow> vec list \<Rightarrow> bool" where
  "left_inverse n C M \<longleftrightarrow> rect n n C \<and> map (mv (cols n M)) C = map (unit_vec n) [0..<n]"

lemma left_inverse_nth:
  assumes a: "left_inverse n C M" and i: "i < n"
  shows "mv (cols n M) (C ! i) = unit_vec n i"
proof -
  have eq: "map (mv (cols n M)) C = map (unit_vec n) [0..<n]" and lc: "length C = n"
    using a by (simp_all add: left_inverse_def rect_def)
  have "mv (cols n M) (C ! i) = map (mv (cols n M)) C ! i" using lc i by simp
  also have "\<dots> = map (unit_vec n) [0..<n] ! i" by (simp only: eq)
  also have "\<dots> = unit_vec n i" using i by simp
  finally show ?thesis .
qed

lemma span_dot_zero:
  assumes len: "\<forall>r \<in> set S. length r = n" and w: "length w = n"
    and z: "\<forall>r \<in> set S. dot r w = 0" and v: "v \<in> span n S"
  shows "dot v w = 0"
  using v
proof induction
  case zero
  show ?case using w by (simp add: dot_commute dot_zero_right)
next
  case (add v r a)
  have lv: "length v = n" using span_length[OF len add.hyps(1)] .
  have lr: "length r = n" using len add.hyps(2) by simp
  have "dot (vadd v (smul a r)) w = dot w (vadd v (smul a r))"
    using lv lr w by (simp add: dot_commute)
  also have "\<dots> = dot w v + a * dot w r"
    using lv lr w by (simp add: dot_vadd_right[of _ n] dot_smul_right[of _ n])
  also have "\<dots> = 0" using add.IH z add.hyps(2) lv lr w by (simp add: dot_commute)
  finally show ?case .
qed

lemma gj_stuck:
  assumes M: "rect n n M"
    and inv: "gj_inv n (cols n M) piv rest"
    and ne: "rest \<noteq> []"
    and nz: "\<forall>x \<in> set rest. fst x ! length piv = 0"
  shows "\<exists>v. length v = n \<and> v \<noteq> replicate n 0 \<and> mv M v = replicate n 0"
proof -
  let ?k = "length piv"
  let ?Mt = "cols n M"
  have Mt: "rect n n ?Mt" by (rule rect_cols[OF M])
  have kn: "?k < n" using inv ne by (cases rest) (auto simp: gj_inv_def)
  define v where "v = map (\<lambda>i. if i < ?k then - fst (piv ! i) ! ?k else if i = ?k then 1 else 0) [0..<n]"
  have lv: "length v = n" by (simp add: v_def)
  have vi: "\<And>i. i < n \<Longrightarrow> v ! i = (if i < ?k then - fst (piv ! i) ! ?k else if i = ?k then 1 else 0)"
    by (simp add: v_def)
  have rels: "\<forall>x \<in> set (piv @ rest). rel n ?Mt x" using inv by (simp add: gj_inv_def)
  have lenf: "\<And>x. x \<in> set (piv @ rest) \<Longrightarrow> length (fst x) = n"
    using rels rel_length_fst[OF Mt] by blast
  have sh: "shape piv rest" using inv by (simp add: gj_inv_def)
  have z_piv: "dot (fst (piv ! j)) v = 0" if j: "j < ?k" for j
  proof -
    let ?l = "fst (piv ! j)"
    have ll: "length ?l = n" using lenf j by simp
    have "dot ?l v = (\<Sum>i<n. ?l ! i * v ! i)" using ll lv by (simp add: dot_sum)
    also have "\<dots> = (\<Sum>i<n. (if i = j then - ?l ! ?k else 0) + (if i = ?k then ?l ! ?k else 0))"
    proof (intro sum.cong refl)
      fix i assume "i \<in> {..<n}"
      then have i: "i < n" by simp
      show "?l ! i * v ! i = (if i = j then - ?l ! ?k else 0) + (if i = ?k then ?l ! ?k else 0)"
      proof (cases "i < ?k")
        case True
        then have "?l ! i = (if i = j then 1 else 0)" using sh j by (simp add: shape_def)
        then show ?thesis using True vi[OF i] by auto
      next
        case False
        then show ?thesis using vi[OF i] j by auto
      qed
    qed
    also have "\<dots> = 0" using j kn by (simp add: sum.distrib sum.delta)
    finally show ?thesis .
  qed
  have z_rest: "dot (fst x) v = 0" if x: "x \<in> set rest" for x
  proof -
    have ll: "length (fst x) = n" using lenf x by simp
    have "dot (fst x) v = (\<Sum>i<n. fst x ! i * v ! i)" using ll lv by (simp add: dot_sum)
    also have "\<dots> = (\<Sum>i<n. 0)"
    proof (intro sum.cong refl)
      fix i assume "i \<in> {..<n}"
      then have i: "i < n" by simp
      show "fst x ! i * v ! i = 0"
      proof (cases "i < ?k")
        case True
        then show ?thesis using sh x by (simp add: shape_def)
      next
        case False
        then show ?thesis using vi[OF i] nz x by auto
      qed
    qed
    finally show ?thesis by simp
  qed
  have z_all: "dot (fst x) v = 0" if "x \<in> set (piv @ rest)" for x
  proof (cases "x \<in> set rest")
    case True
    then show ?thesis by (rule z_rest)
  next
    case False
    then have "x \<in> set piv" using that by simp
    then obtain j where "j < ?k" "x = piv ! j" by (auto simp: in_set_conv_nth)
    then show ?thesis using z_piv by simp
  qed
  define w where "w = mv M v"
  have lw: "length w = n" using M by (simp add: w_def rect_def)
  have adj: "dot (mv ?Mt u) v = dot u w" if "length u = n" for u
    using dot_mv_adjoint[OF Mt that lv] M by (simp add: w_def cols_cols)
  have "\<forall>r \<in> set (map snd (piv @ rest)). dot r w = 0"
  proof
    fix r assume "r \<in> set (map snd (piv @ rest))"
    then obtain x where x: "x \<in> set (piv @ rest)" "r = snd x" by auto
    then have "rel n ?Mt x" using rels by blast
    then have "length r = n" "fst x = mv ?Mt r" using x by (simp_all add: rel_def)
    then show "dot r w = 0" using adj[of r] z_all[OF x(1)] by simp
  qed
  moreover have "\<forall>r \<in> set (map snd (piv @ rest)). length r = n"
    using rels by (auto simp: rel_def)
  ultimately have sp: "\<And>u. u \<in> span n (map snd (piv @ rest)) \<Longrightarrow> dot u w = 0"
    using span_dot_zero[OF _ lw] by blast
  have w0: "w = replicate n 0"
  proof (rule nth_equalityI)
    show "length w = length (replicate n (0::real))" using lw by simp
  next
    fix i assume "i < length w"
    then have i: "i < n" using lw by simp
    have "unit_vec n i \<in> span n (map snd (piv @ rest))" using inv i by (simp add: gj_inv_def)
    then have "dot (unit_vec n i) w = 0" by (rule sp)
    then have "w ! i = 0" using dot_unit_right[OF lw i] lw by (simp add: dot_commute)
    then show "w ! i = replicate n 0 ! i" using i by simp
  qed
  have "v \<noteq> replicate n 0"
  proof
    assume "v = replicate n 0"
    then have "v ! ?k = 0" using kn by simp
    then show False using vi[OF kn] by simp
  qed
  then show ?thesis using lv w0 unfolding w_def by blast
qed

lemma kernel_no_left_inverse:
  assumes M: "rect n n M" and lv: "length v = n" and k: "mv M v = replicate n 0"
    and C: "left_inverse n C M"
  shows "v = replicate n 0"
proof (rule nth_equalityI)
  show "length v = length (replicate n (0::real))" using lv by simp
next
  fix i assume "i < length v"
  then have i: "i < n" using lv by simp
  have lc: "length (C ! i) = n" using C i by (simp add: left_inverse_def rect_def)
  have "v ! i = dot (unit_vec n i) v"
    using dot_unit_right[OF lv i] lv by (simp add: dot_commute)
  also have "\<dots> = dot (mv (cols n M) (C ! i)) v" using left_inverse_nth[OF C i] by simp
  also have "\<dots> = dot (C ! i) (mv (cols n (cols n M)) v)"
    by (rule dot_mv_adjoint[OF rect_cols[OF M] lc lv])
  also have "\<dots> = 0" using k lc by (simp add: cols_cols[OF M] dot_zero_right)
  finally show "v ! i = replicate n 0 ! i" using i by simp
qed

lemma gj_complete:
  assumes M: "rect n n M"
  shows "gj_inv n (cols n M) piv rest \<Longrightarrow> length rest = m \<Longrightarrow> gauss_jordan m piv rest = None \<Longrightarrow>
         \<exists>v. length v = n \<and> v \<noteq> replicate n 0 \<and> mv M v = replicate n 0"
proof (induction m arbitrary: piv rest)
  case 0
  then show ?case by simp
next
  case (Suc m)
  let ?k = "length piv"
  show ?case
  proof (cases "dropWhile (\<lambda>x. fst x ! ?k = 0) rest")
    case Nil
    then have "\<forall>x \<in> set rest. fst x ! ?k = 0" by (simp only: dropWhile_eq_Nil_conv)
    moreover have "rest \<noteq> []" using Suc.prems(2) by auto
    ultimately show ?thesis using gj_stuck[OF M Suc.prems(1)] by blast
  next
    case (Cons p post)
    let ?q = "scale_row (1 / fst p ! ?k) p"
    let ?pre = "takeWhile (\<lambda>x. fst x ! ?k = 0) rest"
    have inv': "gj_inv n (cols n M) (map (eliminate ?k ?q) piv @ [?q]) (map (eliminate ?k ?q) (?pre @ post))"
      by (rule gj_inv_step[OF rect_cols[OF M] Suc.prems(1) Cons refl])
    have "length rest = length ?pre + Suc (length post)"
      using arg_cong[OF pivot_split(1)[OF Cons], of length] by simp
    then have len': "length (map (eliminate ?k ?q) (?pre @ post)) = m"
      using Suc.prems(2) by simp
    have "gauss_jordan m (map (eliminate ?k ?q) piv @ [?q]) (map (eliminate ?k ?q) (?pre @ post)) = None"
      using Suc.prems(3) Cons by (simp add: Let_def)
    then show ?thesis by (rule Suc.IH[OF inv' len'])
  qed
qed

section \<open>The error monad\<close>

lemma ebind_Inr [simp]: "ebind (Inr v) f = f v"
  by (simp add: ebind_def)

lemma ebind_Inl [simp]: "ebind (Inl e) f = Inl e"
  by (simp add: ebind_def)

section \<open>The binned fit: the model CDF over the histogram range\<close>

lemma T_order: "5 < n \<Longrightarrow> 0 < T_MIN \<and> T_MIN < T_MAX n"
  by (simp add: T_MIN_def T_MAX_def divide_strict_right_mono)

lemma expon_cdf_diff:
  assumes "0 < tau" "5 < n"
  shows "expon_cdf (T_MAX n) tau - expon_cdf T_MIN tau \<noteq> 0"
proof -
  have o: "0 < T_MIN" "T_MIN < T_MAX n" using T_order[OF assms(2)] by auto
  have "T_MIN / tau < T_MAX n / tau" using o assms(1) by (simp add: divide_strict_right_mono)
  then have "exp (- (T_MAX n / tau)) < exp (- (T_MIN / tau))" by simp
  moreover have "\<not> T_MIN / tau < 0" "\<not> T_MAX n / tau < 0" using o assms(1) by (auto simp: not_less)
  ultimately have "expon_cdf (T_MAX n) tau - expon_cdf T_MIN tau
      = exp (- (T_MIN / tau)) - exp (- (T_MAX n / tau))"
    "exp (- (T_MAX n / tau)) < exp (- (T_MIN / tau))"
    unfolding expon_cdf_def by simp_all
  then show ?thesis by linarith
qed

lemma uniform_cdf_range:
  assumes "5 < n"
  shows "uniform_cdf (T_MAX n) T_MIN (T_MAX n) - uniform_cdf T_MIN T_MIN (T_MAX n) = 1 - 5 / real n"
proof -
  have o: "0 < T_MIN" "T_MIN < T_MAX n" using T_order[OF assms] by auto
  have a: "(T_MAX n - T_MIN) / T_MAX n = 1 - 5 / real n"
    using assms by (simp add: T_MIN_def T_MAX_def field_simps)
  have "0 < 5 / real n" "5 / real n < 1" using assms by auto
  then show ?thesis using o a by (simp add: uniform_cdf_def Let_def)
qed

text \<open>
  C3 (the code departs from the claim). The claim: for \<open>tau > 0\<close> and \<open>p\<close> in \<open>[0, 1]\<close>
  the model CDF of the binned fit is normalised over the histogram range,
  \<open>cdf(T_MAX) - cdf(T_MIN) = 1\<close>. The code normalises the exponential signal, but it
  passes \<^verbatim>\<open>T_MAX\<close> to \<^verbatim>\<open>uniform.cdf\<close> as the scale, so the background is uniform on
  \<open>[T_MIN, T_MIN + T_MAX]\<close> and puts only \<open>(T_MAX - T_MIN) / T_MAX = 1 - 5 / n\<close> of its
  mass on the histogram range. For every \<open>tau > 0\<close> and a histogram of \<open>n > 5\<close> counts the
  mass of the model over the range is \<open>1 - (1 - p) * 5 / n\<close>, which is \<open>1\<close> only for
  \<open>p = 1\<close>.
\<close>

theorem cdf_range_mass:
  assumes "0 < tau" "5 < n"
  shows "cdf n (T_MAX n) tau p - cdf n T_MIN tau p = 1 - (1 - p) * 5 / real n"
proof -
  let ?d = "expon_cdf (T_MAX n) tau - expon_cdf T_MIN tau"
  have d: "?d \<noteq> 0" using expon_cdf_diff[OF assms] .
  have "cdf n (T_MAX n) tau p - cdf n T_MIN tau p
      = p * (?d * (1 / ?d)) + (1 - p) * (uniform_cdf (T_MAX n) T_MIN (T_MAX n) - uniform_cdf T_MIN T_MIN (T_MAX n))"
    unfolding cdf_def Let_def by (simp only: algebra_simps)
  also have "\<dots> = p + (1 - p) * (1 - 5 / real n)"
    using d uniform_cdf_range[OF assms(2)] by simp
  finally show ?thesis by (simp add: algebra_simps)
qed

text \<open>
  At the start values of the notebook's fit, \<open>tau = 2\<close> and \<open>p = 0.99\<close>, and a histogram
  of ten counts the mass is \<open>0.995\<close>.
\<close>

theorem cdf_range_mass_witness:
  "(0::real) < 2 \<and> (5::nat) < 10 \<and> cdf 10 (T_MAX 10) 2 (99 / 100) - cdf 10 T_MIN 2 (99 / 100) = 199 / 200"
  using cdf_range_mass[of 2 10 "99 / 100"] by simp

section \<open>Goodness of fit\<close>

lemma true_divide_zero: "\<not> is_finite (true_divide s 0)"
  by (simp add: true_divide_def)

text \<open>
  C10. When there are as many observations as parameters, \<open>N = P\<close>, and the arrays fit
  together, \<^verbatim>\<open>chisquare_over_ndf\<close> divides by \<open>ndf = 0\<close>: it raises nothing and returns
  a value that is not finite.
\<close>

theorem chisquare_over_ndf_zero_ndf:
  assumes "has_shape N P A" "has_shape N N W_global" "length y = N" "length parameters = P"
    and "N = P"
  shows "\<exists>v. chisquare_over_ndf W_global y A parameters = Inr v \<and> \<not> is_finite v"
proof -
  have A: "ncols A = P" "length (rows A) = N" using assms(1) by (simp_all add: has_shape_def rect_def)
  have W: "ncols W_global = N" "nrows W_global = N"
    using assms(2) by (simp_all add: has_shape_def rect_def nrows_def)
  show ?thesis
    using A W assms(3,4,5)
    by (simp add: chisquare_over_ndf_def matvec_def vec_sub_def vecmat_def vecdot_def
        Let_def true_divide_zero)
qed

text \<open>
  One observation and one parameter: a residual of \<open>2\<close> gives \<open>inf\<close>, a residual of \<open>0\<close>
  gives \<open>nan\<close>.
\<close>

theorem chisquare_over_ndf_zero_ndf_witness:
  "has_shape 1 1 (Matrix 1 [[1]]) \<and> length [3::real] = 1 \<and> length [1::real] = 1 \<and>
   chisquare_over_ndf (Matrix 1 [[1]]) [3] (Matrix 1 [[1]]) [1] = Inr PosInf \<and>
   chisquare_over_ndf (Matrix 1 [[1]]) [3] (Matrix 1 [[1]]) [3] = Inr NaN"
proof -
  have s: "has_shape 1 1 (Matrix 1 [[1]])" by (simp add: has_shape_def rect_def)
  have "\<exists>v. chisquare_over_ndf (Matrix 1 [[1]]) [3] (Matrix 1 [[1]]) [1] = Inr v \<and> \<not> is_finite v"
    by (rule chisquare_over_ndf_zero_ndf[OF s s]) simp_all
  moreover have "chisquare_over_ndf (Matrix 1 [[1]]) [3] (Matrix 1 [[1]]) [1] = Inr PosInf"
    by (simp add: chisquare_over_ndf_def matvec_def vec_sub_def vecmat_def vecdot_def
        Let_def true_divide_def mv_def dot_def vsub_def cols_def nrows_def)
  moreover have "chisquare_over_ndf (Matrix 1 [[1]]) [3] (Matrix 1 [[1]]) [3] = Inr NaN"
    by (simp add: chisquare_over_ndf_def matvec_def vec_sub_def vecmat_def vecdot_def
        Let_def true_divide_def mv_def dot_def vsub_def cols_def nrows_def)
  ultimately show ?thesis using s by simp
qed

section \<open>The inverse that \<open>linalg_inv\<close> returns\<close>

lemma mv_units: "length b = n \<Longrightarrow> mv (map (unit_vec n) [0..<n]) b = b"
  by (rule nth_equalityI) (auto simp: dot_commute[of "unit_vec n _" b] dot_unit_right)

lemma gj_result:
  assumes M: "rect n n M"
    and g: "gauss_jordan n [] (zip M (map (unit_vec n) [0..<n])) = Some res"
  shows "rect n n (map snd res)"
    and "map (mv (cols n M)) (map snd res) = map (unit_vec n) [0..<n]"
    and "map (mv (cols n (map snd res))) M = map (unit_vec n) [0..<n]"
proof -
  let ?Mt = "cols n M"
  let ?R = "map snd res"
  have Mt: "rect n n ?Mt" by (rule rect_cols[OF M])
  have lM: "length M = n" using M by (simp add: rect_def)
  have inv: "gj_inv n ?Mt res []"
    by (rule gj_sound[OF Mt gj_inv_init[OF M] _ g]) (simp add: lM)
  have lres: "length res = n" using inv by (simp add: gj_inv_def)
  have rels: "\<And>x. x \<in> set res \<Longrightarrow> rel n ?Mt x" using inv by (simp add: gj_inv_def)
  show R: "rect n n ?R" using lres rels by (auto simp: rect_def rel_def)
  have rows: "mv ?Mt (?R ! j) = unit_vec n j" if j: "j < n" for j
  proof -
    have r: "rel n ?Mt (res ! j)" using rels j lres by simp
    have "fst (res ! j) = unit_vec n j"
    proof (rule nth_equalityI)
      show "length (fst (res ! j)) = length (unit_vec n j)"
        using rel_length_fst[OF Mt r] by simp
    next
      fix i assume "i < length (fst (res ! j))"
      then have i: "i < n" using rel_length_fst[OF Mt r] by simp
      show "fst (res ! j) ! i = unit_vec n j ! i"
        using inv i j lres by (simp add: gj_inv_def shape_def)
    qed
    then show ?thesis using r j lres by (simp add: rel_def)
  qed
  show left: "map (mv ?Mt) ?R = map (unit_vec n) [0..<n]"
    using rows lres by (intro nth_equalityI) auto
  have lenR: "\<forall>r \<in> set ?R. length r = n" using R by (simp add: rect_def)
  have Rt: "rect n n (cols n ?R)" by (rule rect_cols[OF R])
  have fixp: "mv (cols n ?R) (mv ?Mt v) = v" if v: "v \<in> span n ?R" for v
    using v
  proof induction
    case zero
    show ?case by (simp add: mv_zero[OF Mt] mv_zero[OF Rt])
  next
    case (add v r a)
    have lv: "length v = n" using span_length[OF lenR add.hyps(1)] .
    have lr: "length r = n" using lenR add.hyps(2) by blast
    obtain j where j: "j < n" "r = ?R ! j"
      using add.hyps(2) lres by (auto simp: in_set_conv_nth)
    have "mv (cols n ?R) (mv ?Mt r) = cols n (cols n ?R) ! j"
      using rows[OF j(1)] mv_unit[OF Rt j(1)] j(2) by simp
    then have r: "mv (cols n ?R) (mv ?Mt r) = r" using j by (simp add: cols_cols[OF R])
    have "mv (cols n ?R) (mv ?Mt (vadd v (smul a r)))
        = vadd (mv (cols n ?R) (mv ?Mt v)) (smul a (mv (cols n ?R) (mv ?Mt r)))"
      using lv lr by (simp add: mv_vadd[OF Mt] mv_smul[OF Mt] mv_vadd[OF Rt] mv_smul[OF Rt])
    then show ?case using add.IH r by simp
  qed
  have "mv (cols n ?R) (M ! i) = unit_vec n i" if i: "i < n" for i
  proof -
    have "unit_vec n i \<in> span n ?R" using inv i by (simp add: gj_inv_def)
    then have "mv (cols n ?R) (mv ?Mt (unit_vec n i)) = unit_vec n i" by (rule fixp)
    moreover have "mv ?Mt (unit_vec n i) = M ! i"
      using mv_unit[OF Mt i] by (simp add: cols_cols[OF M])
    ultimately show ?thesis by simp
  qed
  then show "map (mv (cols n ?R)) M = map (unit_vec n) [0..<n]"
    using lM by (intro nth_equalityI) auto
qed

lemma has_shape_rows: "has_shape n m A \<Longrightarrow> rect n m (rows A) \<and> ncols A = m \<and> nrows A = n"
  by (simp add: has_shape_def rect_def nrows_def)

lemma rows_eye: "rows (eye n) = map (unit_vec n) [0..<n]"
  by (simp add: eye_def)

lemma linalg_inv_sound:
  assumes A: "has_shape n n A" and i: "linalg_inv A = Inr C"
  shows "is_inverse C A"
proof -
  have a: "rect n n (rows A)" "ncols A = n" "nrows A = n" using has_shape_rows[OF A] by auto
  obtain res where g: "gauss_jordan n [] (zip (rows A) (map (unit_vec n) [0..<n])) = Some res"
    and C: "C = Matrix n (map snd res)"
    using i a by (auto simp: linalg_inv_def rows_eye split: option.splits)
  note r = gj_result[OF a(1) g]
  have "has_shape n n C" using r(1) C by (simp add: has_shape_def)
  moreover have "matmul C A = Inr (eye n)"
    using r(2) C a r(1) by (simp add: matmul_def eye_def nrows_def rect_def)
  moreover have "matmul A C = Inr (eye n)"
    using r(3) C a r(1) by (simp add: matmul_def eye_def nrows_def rect_def)
  ultimately show ?thesis using a by (simp add: is_inverse_def)
qed

lemma linalg_inv_complete:
  assumes A: "has_shape n n A" and i: "linalg_inv A = Inl e"
  shows "e = LinAlgError_singular \<and> \<not> invertible A"
proof -
  have a: "rect n n (rows A)" "ncols A = n" "nrows A = n" using has_shape_rows[OF A] by auto
  have g: "gauss_jordan n [] (zip (rows A) (map (unit_vec n) [0..<n])) = None"
    and e: "e = LinAlgError_singular"
    using i a by (auto simp: linalg_inv_def rows_eye split: option.splits)
  obtain v where v: "length v = n" "v \<noteq> replicate n 0" "mv (rows A) v = replicate n 0"
    using gj_complete[OF a(1) gj_inv_init[OF a(1)] _ g] a by (auto simp: rect_def)
  have no: "\<not> left_inverse n C (rows A)" for C
    using kernel_no_left_inverse[OF a(1) v(1) v(3)] v(2) by blast
  have "\<not> invertible A"
  proof
    assume "invertible A"
    then obtain C where C: "has_shape n n C" "matmul C A = Inr (eye n)"
      using a by (auto simp: invertible_def is_inverse_def)
    have "left_inverse n (rows C) (rows A)"
      using C a has_shape_rows[OF C(1)]
      by (simp add: left_inverse_def matmul_def eye_def split: if_splits)
    then show False using no by blast
  qed
  then show ?thesis using e by simp
qed


section \<open>The least-squares solver\<close>

lemma dot_zero_left: "length u = n \<Longrightarrow> dot (replicate n 0) u = 0"
  by (simp add: dot_commute[of "replicate n 0" u] dot_zero_right)

lemma dot_vadd_left:
  "length u = n \<Longrightarrow> length v = n \<Longrightarrow> length w = n \<Longrightarrow>
   dot (vadd u v) w = dot u w + dot v w"
  by (simp add: dot_sum algebra_simps sum.distrib)

lemma vsub_self: "length b = n \<Longrightarrow> vsub b b = replicate n 0"
  by (rule nth_equalityI) auto

lemma wssr_min:
  assumes a: "rect N P a" and w: "rect N N w" and sym: "cols N w = w"
    and psd: "\<And>v. length v = N \<Longrightarrow> 0 \<le> dot v (mv w v)"
    and y: "length y = N" and th: "length \<theta> = P" and th': "length \<theta>' = P"
    and ne: "mv (cols P a) (mv w (mv a \<theta>)) = mv (cols P a) (mv w y)"
  shows "dot (vsub y (mv a \<theta>)) (mv w (vsub y (mv a \<theta>)))
       \<le> dot (vsub y (mv a \<theta>')) (mv w (vsub y (mv a \<theta>')))"
proof -
  define r where "r = vsub y (mv a \<theta>)"
  define \<delta> where "\<delta> = vsub \<theta> \<theta>'"
  define d where "d = mv a \<delta>"
  have la: "length a = N" using a by (simp add: rect_def)
  have lw: "length w = N" using w by (simp add: rect_def)
  have lr: "length r = N" using y la by (simp add: r_def)
  have l\<delta>: "length \<delta> = P" using th th' by (simp add: \<delta>_def)
  have ld: "length d = N" using la by (simp add: d_def)
  have at: "rect P N (cols P a)" by (rule rect_cols[OF a])
  have d_eq: "d = vsub (mv a \<theta>) (mv a \<theta>')"
    unfolding d_def \<delta>_def by (rule mv_vsub[OF a th th'])
  have r': "vsub y (mv a \<theta>') = vadd r d"
    unfolding d_eq r_def using y la by (intro nth_equalityI) auto
  have lwr: "length (mv w r) = N" and lwd: "length (mv w d) = N" using lw by simp_all
  have zero: "mv (cols P a) (mv w r) = replicate P 0"
  proof -
    have "mv w r = vsub (mv w y) (mv w (mv a \<theta>))"
      unfolding r_def using la y by (intro mv_vsub[OF w]) simp_all
    then have "mv (cols P a) (mv w r) = vsub (mv (cols P a) (mv w y)) (mv (cols P a) (mv w (mv a \<theta>)))"
      using lw by (simp add: mv_vsub[OF at])
    then show ?thesis using ne by (simp add: vsub_self[of _ P])
  qed
  have X: "dot d (mv w r) = 0"
  proof -
    have "dot d (mv w r) = dot \<delta> (mv (cols P a) (mv w r))"
      unfolding d_def by (rule dot_mv_adjoint[OF a l\<delta> lwr])
    then show ?thesis using zero l\<delta> by (simp add: dot_zero_right)
  qed
  have X': "dot r (mv w d) = 0"
  proof -
    have "dot (mv w d) r = dot d (mv (cols N w) r)" by (rule dot_mv_adjoint[OF w ld lr])
    then show ?thesis using X sym lr lwd by (simp add: dot_commute[of r "mv w d"])
  qed
  have "dot (vadd r d) (mv w (vadd r d)) = dot (vadd r d) (vadd (mv w r) (mv w d))"
    using lr ld by (simp add: mv_vadd[OF w])
  also have "\<dots> = dot (vadd r d) (mv w r) + dot (vadd r d) (mv w d)"
    using lr ld lwr lwd by (intro dot_vadd_right[of _ N]) simp_all
  also have "\<dots> = (dot r (mv w r) + dot d (mv w r)) + (dot r (mv w d) + dot d (mv w d))"
    using lr ld lwr lwd by (simp add: dot_vadd_left[of _ N])
  also have "\<dots> = dot r (mv w r) + dot d (mv w d)" using X X' by simp
  finally have "dot (vadd r d) (mv w (vadd r d)) = dot r (mv w r) + dot d (mv w d)" .
  moreover have "0 \<le> dot d (mv w d)" by (rule psd[OF ld])
  ultimately show ?thesis using r' by (simp add: r_def)
qed

lemma normal_matrix_shape:
  assumes A: "has_shape N P A" and W: "has_shape N N W"
  shows "\<exists>M. normal_matrix A W = Inr M \<and> has_shape P P M \<and>
           (\<forall>t. length t = P \<longrightarrow>
              mv (rows M) t = mv (cols P (rows A)) (mv (rows W) (mv (rows A) t)))"
proof -
  let ?a = "rows A" and ?w = "rows W"
  let ?at = "cols P ?a"
  let ?atw = "map (mv (cols N ?w)) ?at"
  let ?m = "map (mv ?at) ?atw"
  have a: "rect N P ?a" "ncols A = P" "nrows A = N" using has_shape_rows[OF A] by auto
  have w: "rect N N ?w" "ncols W = N" "nrows W = N" using has_shape_rows[OF W] by auto
  have at: "rect P N ?at" by (rule rect_cols[OF a(1)])
  have atw: "rect P N ?atw" by (simp add: rect_def)
  have nm: "normal_matrix A W = Inr (Matrix P ?m)"
    using a w by (simp add: normal_matrix_def transpose_m_def matmul_def nrows_def)
  have sh: "has_shape P P (Matrix P ?m)" by (simp add: has_shape_def rect_def)
  have "mv ?m t = mv ?at (mv ?w (mv ?a t))" if t: "length t = P" for t
  proof -
    have "mv ?m t = mv ?atw (mv ?a t)" by (rule mv_mv[OF atw a(1) t])
    also have "\<dots> = mv ?at (mv ?w (mv ?a t))"
      by (rule mv_mv[OF at w(1)]) (use a in \<open>simp add: rect_def\<close>)
    finally show ?thesis .
  qed
  then show ?thesis using nm sh by auto
qed

lemma solve_unfold:
  assumes A: "has_shape N P A" and W: "has_shape N N W" and y: "length y = N"
    and M: "normal_matrix A W = Inr M"
  shows "solve_linear_least_squares A W y =
           (case linalg_inv M of
              Inl e \<Rightarrow> Inl e
            | Inr C \<Rightarrow> Inr (mv (rows C) (mv (rows (transpose_m A)) (mv (rows W) y)), C))"
proof (cases "linalg_inv M")
  case (Inl e)
  then show ?thesis
    using M by (auto simp: solve_linear_least_squares_def normal_matrix_def ebind_def
        split: sum.splits)
next
  case (Inr C)
  let ?a = "rows A" and ?w = "rows W" and ?R = "rows C"
  have a: "rect N P ?a" "ncols A = P" "nrows A = N" using has_shape_rows[OF A] by auto
  have w: "rect N N ?w" "ncols W = N" "nrows W = N" using has_shape_rows[OF W] by auto
  obtain M' where M': "normal_matrix A W = Inr M'" "has_shape P P M'"
    using normal_matrix_shape[OF A W] by blast
  then have Msh: "has_shape P P M" using M by simp
  have "is_inverse C M" by (rule linalg_inv_sound[OF Msh Inr])
  then have C: "has_shape P P C" using has_shape_rows[OF Msh] by (simp add: is_inverse_def)
  have c: "rect P P ?R" "ncols C = P" "nrows C = P" using has_shape_rows[OF C] by auto
  have at: "rect P N (cols P ?a)" by (rule rect_cols[OF a(1)])
  let ?ca = "map (mv (cols N (cols P ?a))) ?R"
  have ca: "rect P N ?ca" using c by (simp add: rect_def)
  have lwy: "length (mv ?w y) = N" using w by (simp add: rect_def)
  have "mv (map (mv (cols N ?w)) ?ca) y = mv ?ca (mv ?w y)" by (rule mv_mv[OF ca w(1) y])
  also have "\<dots> = mv ?R (mv (cols P ?a) (mv ?w y))" by (rule mv_mv[OF c(1) at lwy])
  finally have th: "mv (map (mv (cols N ?w)) ?ca) y = mv ?R (mv (cols P ?a) (mv ?w y))" .
  have "solve_linear_least_squares A W y = Inr (mv (map (mv (cols N ?w)) ?ca) y, C)"
    using M Inr a w c y
    by (auto simp: solve_linear_least_squares_def normal_matrix_def ebind_def transpose_m_def
        matmul_def matvec_def nrows_def split: sum.splits if_splits)
  then show ?thesis using Inr th a by (simp add: transpose_m_def)
qed

lemma symmetric_posdef_eye2: "symmetric_posdef (eye 2)"
proof -
  have t: "transpose_m (eye 2) = eye 2" by code_simp
  have r: "rows (eye 2) = [[1, 0], [0, 1]]" "nrows (eye 2) = 2" by code_simp+
  have "0 < dot v (mv (rows (eye 2)) v)" if v: "length v = 2" "v \<noteq> replicate 2 0" for v
  proof -
    obtain a b where ab: "v = [a, b]"
      using v(1) by (metis (no_types, opaque_lifting) length_0_conv length_Suc_conv numeral_2_eq_2)
    have "a \<noteq> 0 \<or> b \<noteq> 0" using v(2) ab by (auto simp: numeral_2_eq_2)
    then have "0 < a * a + b * b"
      by (metis add_pos_nonneg add_nonneg_pos zero_le_square not_real_square_gt_zero mult.commute)
    then show ?thesis by (simp add: ab r mv_def dot_def)
  qed
  then show ?thesis using t r by (simp add: symmetric_posdef_def)
qed

text \<open>
  C1. For every design matrix \<open>A\<close> (\<open>N \<times> P\<close>), weight matrix \<open>W\<close> (\<open>N \<times> N\<close>) and response
  vector \<open>y\<close> (length \<open>N\<close>) such that \<open>A\<^sup>T W A\<close> is invertible,
  \<^verbatim>\<open>solve_linear_least_squares\<close> returns the pair \<open>(\<theta>, C)\<close> where \<open>C\<close> is the inverse of
  \<open>A\<^sup>T W A\<close> and \<open>\<theta> = C A\<^sup>T W y\<close>; when \<open>W\<close> is symmetric and positive definite, this
  \<open>\<theta>\<close> minimises the weighted sum of squared residuals over all parameter vectors.
\<close>

theorem solve_linear_least_squares_correct:
  assumes A: "has_shape N P A" and W: "has_shape N N W" and y: "length y = N"
    and M: "normal_matrix A W = Inr M" and inv: "invertible M"
  shows "\<exists>\<theta> C. solve_linear_least_squares A W y = Inr (\<theta>, C) \<and>
           is_inverse C M \<and>
           \<theta> = mv (rows C) (mv (rows (transpose_m A)) (mv (rows W) y)) \<and>
           (symmetric_posdef W \<longrightarrow>
              (\<forall>\<theta>'. length \<theta>' = P \<longrightarrow> weighted_ssr A W y \<theta> \<le> weighted_ssr A W y \<theta>'))"
proof -
  let ?a = "rows A" and ?w = "rows W"
  have a: "rect N P ?a" "ncols A = P" "nrows A = N" using has_shape_rows[OF A] by auto
  have w: "rect N N ?w" "ncols W = N" "nrows W = N" using has_shape_rows[OF W] by auto
  obtain M' where M': "normal_matrix A W = Inr M'" "has_shape P P M'"
    "\<And>t. length t = P \<Longrightarrow> mv (rows M') t = mv (cols P ?a) (mv ?w (mv ?a t))"
    using normal_matrix_shape[OF A W] by blast
  have MM: "M' = M" using M M'(1) by simp
  have Msh: "has_shape P P M" using M'(2) MM by simp
  have m: "rect P P (rows M)" "ncols M = P" "nrows M = P" using has_shape_rows[OF Msh] by auto
  obtain C where Ci: "linalg_inv M = Inr C"
    using linalg_inv_complete[OF Msh] inv by (cases "linalg_inv M") auto
  have isi: "is_inverse C M" by (rule linalg_inv_sound[OF Msh Ci])
  then have Csh: "has_shape P P C" using m by (simp add: is_inverse_def)
  have c: "rect P P (rows C)" "ncols C = P" "nrows C = P" using has_shape_rows[OF Csh] by auto
  define b where "b = mv (cols P ?a) (mv ?w y)"
  define \<theta> where "\<theta> = mv (rows C) b"
  have lb: "length b = P" by (simp add: b_def)
  have lth: "length \<theta> = P" using c by (simp add: \<theta>_def rect_def)
  have sol: "solve_linear_least_squares A W y = Inr (\<theta>, C)"
    using solve_unfold[OF A W y M] Ci a by (simp add: \<theta>_def b_def transpose_m_def)
  have MC: "map (mv (cols P (rows C))) (rows M) = map (unit_vec P) [0..<P]"
    using isi m c by (simp add: is_inverse_def matmul_def eye_def split: if_splits)
  have ne: "mv (cols P ?a) (mv ?w (mv ?a \<theta>)) = b"
  proof -
    have "mv (cols P ?a) (mv ?w (mv ?a \<theta>)) = mv (rows M) \<theta>" using M'(3)[OF lth] MM by simp
    also have "\<dots> = mv (map (mv (cols P (rows C))) (rows M)) b"
      unfolding \<theta>_def by (rule mv_mv[OF m(1) c(1) lb, symmetric])
    also have "\<dots> = b" using MC mv_units[OF lb] by simp
    finally show ?thesis .
  qed
  have min: "weighted_ssr A W y \<theta> \<le> weighted_ssr A W y \<theta>'"
    if spd: "symmetric_posdef W" and t': "length \<theta>' = P" for \<theta>'
  proof -
    have sym: "cols N ?w = ?w"
      using spd w by (cases W) (simp add: symmetric_posdef_def transpose_m_def nrows_def)
    have psd: "0 \<le> dot v (mv ?w v)" if v: "length v = N" for v
    proof (cases "v = replicate N 0")
      case True
      then show ?thesis using w by (simp add: dot_zero_left rect_def)
    next
      case False
      then show ?thesis using spd v w by (simp add: symmetric_posdef_def less_imp_le)
    qed
    show ?thesis
      unfolding weighted_ssr_def Let_def
      by (rule wssr_min[OF a(1) w(1) sym psd y lth t']) (simp_all add: ne b_def)
  qed
  show ?thesis using sol isi min a by (auto simp: \<theta>_def b_def transpose_m_def)
qed

text \<open>
  Two observations \<open>1\<close> and \<open>3\<close>, the constant basis function and unit weights: the
  estimate is the mean \<open>2\<close> with variance \<open>1 / 2\<close>.
\<close>

theorem solve_linear_least_squares_correct_witness:
  "has_shape 2 1 (Matrix 1 [[1], [1]]) \<and> has_shape 2 2 (eye 2) \<and> length [1, 3 :: real] = 2 \<and>
   normal_matrix (Matrix 1 [[1], [1]]) (eye 2) = Inr (Matrix 1 [[2]]) \<and>
   invertible (Matrix 1 [[2]]) \<and> symmetric_posdef (eye 2) \<and>
   solve_linear_least_squares (Matrix 1 [[1], [1]]) (eye 2) [1, 3] = Inr ([2], Matrix 1 [[1 / 2]]) \<and>
   is_inverse (Matrix 1 [[1 / 2]]) (Matrix 1 [[2]]) \<and>
   weighted_ssr (Matrix 1 [[1], [1]]) (eye 2) [1, 3] [2] \<le>
     weighted_ssr (Matrix 1 [[1], [1]]) (eye 2) [1, 3] [5]"
proof -
  have A: "has_shape 2 1 (Matrix 1 [[1], [1]])" by code_simp
  have W: "has_shape 2 2 (eye 2)" by code_simp
  have y: "length [1, 3 :: real] = 2" by simp
  have M: "normal_matrix (Matrix 1 [[1], [1]]) (eye 2) = Inr (Matrix 1 [[2]])" by code_simp
  have ii: "is_inverse (Matrix 1 [[1 / 2]]) (Matrix 1 [[2]])" by code_simp
  then have inv: "invertible (Matrix 1 [[2]])" unfolding invertible_def by blast
  have sol: "solve_linear_least_squares (Matrix 1 [[1], [1]]) (eye 2) [1, 3] = Inr ([2], Matrix 1 [[1 / 2]])"
    by code_simp
  from solve_linear_least_squares_correct[OF A W y M inv] sol
  have "symmetric_posdef (eye 2) \<longrightarrow>
      (\<forall>\<theta>'. length \<theta>' = 1 \<longrightarrow>
         weighted_ssr (Matrix 1 [[1], [1]]) (eye 2) [1, 3] [2]
         \<le> weighted_ssr (Matrix 1 [[1], [1]]) (eye 2) [1, 3] \<theta>')"
    by auto
  then have "weighted_ssr (Matrix 1 [[1], [1]]) (eye 2) [1, 3] [2] \<le>
     weighted_ssr (Matrix 1 [[1], [1]]) (eye 2) [1, 3] [5]"
    using symmetric_posdef_eye2 by simp
  then show ?thesis using A W M inv ii sol symmetric_posdef_eye2 by simp
qed


subsection \<open>Negated weights\<close>


lemma rect_smul: "rect n m X \<Longrightarrow> rect n m (map (smul c) X)"
  by (auto simp: rect_def)















section \<open>The fit function and the module-level weight matrix\<close>

text \<open>
  What \<^verbatim>\<open>chisquare_over_ndf\<close> computes for arrays that fit together: the weighted sum of
  squared residuals under the module-level \<^verbatim>\<open>W\<close>, divided by \<open>N - P\<close>.
\<close>

lemma chisquare_over_ndf_value:
  assumes A: "has_shape N P A" and W: "has_shape N N Wg" and y: "length y = N"
    and t: "length \<theta> = P"
  shows "chisquare_over_ndf Wg y A \<theta> = Inr (true_divide (weighted_ssr A Wg y \<theta>) (int N - int P))"
proof -
  have a: "rect N P (rows A)" "ncols A = P" "nrows A = N" using has_shape_rows[OF A] by auto
  have w: "rect N N (rows Wg)" "ncols Wg = N" "nrows Wg = N" using has_shape_rows[OF W] by auto
  let ?r = "vsub y (mv (rows A) \<theta>)"
  have lr: "length ?r = N" using y a by (simp add: rect_def)
  have "dot (mv (cols N (rows Wg)) ?r) ?r = dot ?r (mv (cols N (cols N (rows Wg))) ?r)"
    by (rule dot_mv_adjoint[OF rect_cols[OF w(1)] lr lr])
  then have e: "dot (mv (cols N (rows Wg)) ?r) ?r = dot ?r (mv (rows Wg) ?r)"
    by (simp add: cols_cols[OF w(1)])
  show ?thesis
    using a w y t e
    by (simp add: chisquare_over_ndf_def matvec_def vec_sub_def vecmat_def vecdot_def
        weighted_ssr_def Let_def rect_def)
qed

text \<open>
  C2 (the code departs from the claim). The claim: the third component that
  \<^verbatim>\<open>linear_least_squares\<close> returns is \<open>(y - A \<theta>)\<^sup>T W (y - A \<theta>) / (N - P)\<close> with the weight
  matrix \<open>W\<close> of the parameter solve, the identity when \<^verbatim>\<open>cov_y\<close> is not given. The code
  computes it with the module-level \<^verbatim>\<open>W\<close> instead. For the observations \<open>1\<close> and \<open>3\<close>, the
  constant basis function, no \<^verbatim>\<open>cov_y\<close> and a module-level \<open>W = diag(4, 4)\<close> the fit
  returns \<open>8\<close>, where the claim's formula with the identity gives \<open>2\<close>.
\<close>

theorem linear_least_squares_chisquare_global_W:
  "linear_least_squares (Matrix 2 [[4, 0], [0, 4]]) [0, 1] [1, 3] [ones_like] None
     = Inr ([2], Matrix 1 [[1 / 2]], Finite 8) \<and>
   design_matrix [ones_like] [0, 1] = Inr (Matrix 1 [[1], [1]]) \<and>
   weighted_ssr (Matrix 1 [[1], [1]]) (eye 2) [1, 3] [2] / (2 - 1) = 2"
  by code_simp

text \<open>
  C5 (the code departs from the claim). The claim: the result of \<^verbatim>\<open>linear_least_squares\<close>
  depends on its arguments only, not on module-level variables. The same arguments give
  three different outcomes under three values of the module-level \<^verbatim>\<open>W\<close>: two different
  chi-square values, and a \<^verbatim>\<open>ValueError\<close> when \<^verbatim>\<open>W\<close> has another size than the data.
\<close>

theorem linear_least_squares_depends_on_module_state:
  "linear_least_squares (eye 2) [0, 1] [1, 3] [ones_like] None
     = Inr ([2], Matrix 1 [[1 / 2]], Finite 2) \<and>
   linear_least_squares (Matrix 2 [[1 / 4, 0], [0, 1 / 4]]) [0, 1] [1, 3] [ones_like] None
     = Inr ([2], Matrix 1 [[1 / 2]], Finite (1 / 2)) \<and>
   linear_least_squares (eye 3) [0, 1] [1, 3] [ones_like] None = Inl ValueError"
  by code_simp

section \<open>The unbinned fit and the minimizer's success flag\<close>

lemma linalg_inv_eye4: "linalg_inv (eye 4) = Inr (eye 4)"
  by code_simp

text \<open>
  C8 (counterexample). The claim: when the minimizer does not converge, the failure
  reaches the caller as an error and the fit yields no estimate and no covariance. A
  minimizer that stops at its start point and reports \<^verbatim>\<open>success = False\<close> raises
  nothing, and the cells go on: the start point comes back as the estimate, with the
  inverse of the Hessian there as its covariance.
\<close>

theorem unbinned_fit_returns_unconverged:
  "unbinned_fit (\<lambda>f x0 bnds. Inr \<lparr>result_x = x0, result_success = False\<rparr>) (\<lambda>f x. eye 4) [100, 126]
     = Inr ([130, 2, 30, 0.2], eye 4)"
  by (simp add: unbinned_fit_def linalg_inv_eye4)

text \<open>
  C8 (amended). The cells never read the success flag. Whenever \<^verbatim>\<open>minimize\<close> returns a
  result, converged or not, and the Hessian at \<^verbatim>\<open>result.x\<close> is an invertible square
  matrix, the fit yields \<^verbatim>\<open>result.x\<close> as the estimate and the inverse of that Hessian as
  the covariance.
\<close>

theorem unbinned_fit_ignores_success:
  assumes "minimize (\<lambda>parameters. neg_log_likelihood parameters measured) [130, 2, 30, 0.2]
             [(Some 0, None), (Some float_eps, None), (Some float_eps, None), (Some 0, Some 1)]
           = Inr result"
    and "has_shape n n (Hessian (\<lambda>parameters. neg_log_likelihood parameters measured) (result_x result))"
    and "invertible (Hessian (\<lambda>parameters. neg_log_likelihood parameters measured) (result_x result))"
  shows "\<exists>cov. unbinned_fit minimize Hessian measured = Inr (result_x result, cov) \<and>
           is_inverse cov (Hessian (\<lambda>parameters. neg_log_likelihood parameters measured) (result_x result))"
proof -
  let ?H = "Hessian (\<lambda>parameters. neg_log_likelihood parameters measured) (result_x result)"
  obtain cov where c: "linalg_inv ?H = Inr cov"
    using linalg_inv_complete[OF assms(2)] assms(3) by (cases "linalg_inv ?H") auto
  have "is_inverse cov ?H" by (rule linalg_inv_sound[OF assms(2) c])
  then show ?thesis using assms(1) c by (simp add: unbinned_fit_def)
qed

text \<open>The amended statement for a minimizer that reports \<^verbatim>\<open>success = False\<close>.\<close>

theorem unbinned_fit_ignores_success_witness:
  "has_shape 4 4 (eye 4) \<and> invertible (eye 4) \<and>
   \<not> result_success \<lparr>result_x = [130, 2, 30, 0.2], result_success = False\<rparr> \<and>
   (\<exists>cov. unbinned_fit (\<lambda>f x0 bnds. Inr \<lparr>result_x = x0, result_success = False\<rparr>) (\<lambda>f x. eye 4) [100, 126]
       = Inr ([130, 2, 30, 0.2], cov) \<and> is_inverse cov (eye 4))"
proof -
  have s: "has_shape 4 4 (eye 4)" by code_simp
  have "is_inverse (eye 4) (eye 4)" by code_simp
  then have i: "invertible (eye 4)" unfolding invertible_def by blast
  have "\<exists>cov. unbinned_fit (\<lambda>f x0 bnds. Inr \<lparr>result_x = x0, result_success = False\<rparr>) (\<lambda>f x. eye 4) [100, 126]
       = Inr (result_x \<lparr>result_x = [130, 2, 30, 0.2], result_success = False\<rparr>, cov) \<and> is_inverse cov (eye 4)"
    by (rule unbinned_fit_ignores_success[where n = 4]) (simp_all add: s i)
  then show ?thesis using s i by simp
qed

section \<open>The design matrix\<close>

lemma design_matrix_same_length:
  assumes "funcs \<noteq> []" and "\<forall>f \<in> set funcs. length (f x) = M"
  shows "design_matrix funcs x = Inr (Matrix (length funcs) (cols M (map (\<lambda>f. f x) funcs)))"
proof -
  obtain f fs where f: "funcs = f # fs" using assms(1) by (cases funcs) auto
  have "length (f x) = M" using assms(2) f by simp
  moreover have "\<forall>d \<in> set (map (\<lambda>f. f x) funcs). length d = M" using assms(2) by auto
  ultimately show ?thesis using f by (simp add: design_matrix_def column_stack_def)
qed

text \<open>
  C9 (counterexample). The claim: \<^verbatim>\<open>design_matrix\<close> returns the \<open>N \<times> P\<close> matrix of the basis
  functions at the samples and fails when a basis function returns a result of
  mismatched shape. The columns are only compared with each other: the single basis
  function \<^verbatim>\<open>lambda x: x[1:]\<close> on two samples returns one value, and the result is a
  \<open>1 \<times> 1\<close> matrix, not a failure.
\<close>

theorem design_matrix_accepts_short_columns:
  "design_matrix [tl] [1, 2] = Inr (Matrix 1 [[2]])"
  by code_simp

text \<open>
  C9 (amended). \<^verbatim>\<open>design_matrix\<close> calls every basis function once on the whole sample
  array. When there is at least one basis function and all \<open>P\<close> results have the same
  length \<open>M\<close>, it returns the \<open>M \<times> P\<close> matrix whose entry \<open>(i, j)\<close> is element \<open>i\<close> of the
  result of basis function \<open>j\<close>; for basis functions that work element by element
  (\<open>f\<^sub>j = map g\<^sub>j\<close>) this is the \<open>N \<times> P\<close> matrix of the \<open>g\<^sub>j\<close> at the samples. It fails with
  \<^verbatim>\<open>ValueError\<close> when two results differ in length or when there is no basis function. Being a function of \<^verbatim>\<open>funcs\<close> and \<^verbatim>\<open>x\<close>
  alone, it has no side effect.
\<close>

theorem design_matrix_entries:
  "(funcs \<noteq> [] \<and> (\<forall>f \<in> set funcs. length (f x) = M) \<longrightarrow>
      (\<exists>A. design_matrix funcs x = Inr A \<and> has_shape M (length funcs) A \<and>
           (\<forall>i<M. \<forall>j<length funcs. rows A ! i ! j = (funcs ! j) x ! i))) \<and>
   (funcs \<noteq> [] \<and> (\<forall>j<length funcs. funcs ! j = map (gs ! j)) \<longrightarrow>
      (\<exists>A. design_matrix funcs x = Inr A \<and> has_shape (length x) (length funcs) A \<and>
           (\<forall>i<length x. \<forall>j<length funcs. rows A ! i ! j = (gs ! j) (x ! i)))) \<and>
   ((\<exists>f \<in> set funcs. \<exists>g \<in> set funcs. length (f x) \<noteq> length (g x)) \<longrightarrow>
      design_matrix funcs x = Inl ValueError) \<and>
   (funcs = [] \<longrightarrow> design_matrix funcs x = Inl ValueError)"
proof (intro conjI impI)
  assume h: "funcs \<noteq> [] \<and> (\<forall>f \<in> set funcs. length (f x) = M)"
  then have dm: "design_matrix funcs x = Inr (Matrix (length funcs) (cols M (map (\<lambda>f. f x) funcs)))"
    by (simp add: design_matrix_same_length)
  show "\<exists>A. design_matrix funcs x = Inr A \<and> has_shape M (length funcs) A \<and>
           (\<forall>i<M. \<forall>j<length funcs. rows A ! i ! j = (funcs ! j) x ! i)"
    using dm by (simp add: has_shape_def rect_def cols_def)
next
  assume h: "funcs \<noteq> [] \<and> (\<forall>j<length funcs. funcs ! j = map (gs ! j))"
  have len: "\<forall>f \<in> set funcs. length (f x) = length x"
  proof
    fix f assume "f \<in> set funcs"
    then obtain j where "j < length funcs" "f = funcs ! j" by (auto simp: in_set_conv_nth)
    then show "length (f x) = length x" using h by simp
  qed
  have dm: "design_matrix funcs x
      = Inr (Matrix (length funcs) (cols (length x) (map (\<lambda>f. f x) funcs)))"
    using h len by (simp add: design_matrix_same_length)
  show "\<exists>A. design_matrix funcs x = Inr A \<and> has_shape (length x) (length funcs) A \<and>
           (\<forall>i<length x. \<forall>j<length funcs. rows A ! i ! j = (gs ! j) (x ! i))"
    using dm h by (simp add: has_shape_def rect_def cols_def)
next
  assume "\<exists>f \<in> set funcs. \<exists>g \<in> set funcs. length (f x) \<noteq> length (g x)"
  then obtain f g where fg: "f \<in> set funcs" "g \<in> set funcs" "length (f x) \<noteq> length (g x)" by blast
  then obtain h hs where h: "funcs = h # hs" by (cases funcs) auto
  have "length (f x) \<noteq> length (h x) \<or> length (g x) \<noteq> length (h x)" using fg(3) by auto
  then have "\<exists>d \<in> set funcs. length (d x) \<noteq> length (h x)" using fg(1,2) by blast
  then have "\<not> (\<forall>d \<in> set (map (\<lambda>f. f x) funcs). length d = length (h x))"
    by simp
  then show "design_matrix funcs x = Inl ValueError"
    using h by (simp add: design_matrix_def column_stack_def)
next
  assume "funcs = []"
  then show "design_matrix funcs x = Inl ValueError"
    by (simp add: design_matrix_def column_stack_def)
qed

text \<open>
  The constant and the square on the samples \<open>1, 2, 3\<close>; a column that is too short next
  to a full one; no basis function.
\<close>

theorem design_matrix_entries_witness:
  "design_matrix [ones_like, map (\<lambda>t. t * t)] [1, 2, 3] = Inr (Matrix 2 [[1, 1], [1, 4], [1, 9]]) \<and>
   has_shape 3 2 (Matrix 2 [[1, 1], [1, 4], [1, 9]]) \<and>
   rows (Matrix 2 [[1, 1], [1, 4], [1, 9]]) ! 2 ! 1 = (\<lambda>t. t * t) ([1, 2, 3 :: real] ! 2) \<and>
   design_matrix [ones_like, tl] [1, 2, 3] = Inl ValueError \<and>
   design_matrix [] [1, 2, 3] = Inl ValueError"
proof -
  let ?funcs = "[ones_like, map (\<lambda>t. t * t)]"
  let ?gs = "[\<lambda>_. 1, \<lambda>t :: real. t * t]"
  note t = design_matrix_entries[of ?funcs "[1, 2, 3]" 3 ?gs]
  have a: "design_matrix ?funcs [1, 2, 3] = Inr (Matrix 2 [[1, 1], [1, 4], [1, 9]])"
    by code_simp
  have "?funcs \<noteq> [] \<and> (\<forall>f \<in> set ?funcs. length (f [1, 2, 3 :: real]) = 3)"
    by (simp add: ones_like_def)
  then have "\<exists>A. design_matrix ?funcs [1, 2, 3] = Inr A \<and> has_shape 3 (length ?funcs) A"
    using t by blast
  then have b: "has_shape 3 2 (Matrix 2 [[1, 1], [1, 4], [1, 9]])"
    using a by (simp add: numeral_2_eq_2)
  have o: "ones_like = map (\<lambda>_. 1)" by (rule ext) (simp add: ones_like_def)
  have "?funcs \<noteq> [] \<and> (\<forall>j<length ?funcs. ?funcs ! j = map (?gs ! j))"
    by (simp add: o less_Suc_eq)
  then have "\<exists>A. design_matrix ?funcs [1, 2, 3] = Inr A \<and>
      (\<forall>i<length [1, 2, 3 :: real]. \<forall>j<length ?funcs. rows A ! i ! j = (?gs ! j) ([1, 2, 3] ! i))"
    using t by blast
  then have "\<forall>i<length [1, 2, 3 :: real]. \<forall>j<length ?funcs.
      rows (Matrix 2 [[1, 1], [1, 4], [1, 9]]) ! i ! j = (?gs ! j) ([1, 2, 3] ! i)"
    using a by simp
  then have "2 < length [1, 2, 3 :: real] \<longrightarrow> 1 < length ?funcs \<longrightarrow>
      rows (Matrix 2 [[1, 1], [1, 4], [1, 9]]) ! 2 ! 1 = (?gs ! 1) ([1, 2, 3] ! 2)"
    by blast
  then have e: "rows (Matrix 2 [[1, 1], [1, 4], [1, 9]]) ! 2 ! 1 = (\<lambda>t. t * t) ([1, 2, 3 :: real] ! 2)"
    by simp
  have "ones_like \<in> set [ones_like, tl]" "tl \<in> set [ones_like, tl]"
    "length (ones_like [1, 2, 3 :: real]) \<noteq> length (tl [1, 2, 3 :: real])"
    by (simp_all add: ones_like_def)
  then have "\<exists>f \<in> set [ones_like, tl]. \<exists>g \<in> set [ones_like, tl]. length (f [1, 2, 3 :: real]) \<noteq> length (g [1, 2, 3])"
    by blast
  then have c: "design_matrix [ones_like, tl] [1, 2, 3] = Inl ValueError"
    using design_matrix_entries[of "[ones_like, tl]" "[1, 2, 3]" 3 "[]"] by blast
  have d: "design_matrix [] [1, 2, 3] = Inl ValueError"
    using design_matrix_entries[of "[]" "[1, 2, 3]" 3 "[]"] by blast
  show ?thesis using a b c d e by blast
qed

section \<open>The unbinned fit: density and likelihood\<close>

subsection \<open>Where the density is a number\<close>

text \<open>
  The range of parameters in which every intermediate value of \<^verbatim>\<open>pdf\<close> is a number:
  with \<open>std \<ge> 10\<^sup>-\<^sup>3\<^sup>0\<^sup>0\<close> the quotient by \<open>std\<close> does not overflow; with \<open>tau \<ge> 0.2\<close> the
  exponent \<open>-E_MIN / tau\<close> is at least \<open>-375\<close> and \<open>exp (-E_MIN / tau)\<close> does not underflow,
  so that \<^verbatim>\<open>expon_norm\<close> is positive; with \<open>tau \<le> 10\<^sup>1\<^sup>2\<close> the two exponentials of
  \<^verbatim>\<open>expon_norm\<close> are different float64 numbers. An exponent of \<open>-875\<close> or less underflows.
\<close>

lemma exp_nat_lower: "(5 / 2) ^ n \<le> exp (real n)"
proof -
  have "(5 / 2 :: real) \<le> exp 1" using exp_lower_Taylor_quadratic[of "1::real"] by simp
  then have "(5 / 2 :: real) ^ n \<le> exp 1 ^ n" by (intro power_mono) auto
  then show ?thesis using exp_of_nat_mult[of n "1::real"] by simp
qed

lemma exp_nat_upper: "exp (real n) \<le> 3 ^ n"
proof -
  have "exp 1 ^ n \<le> (3::real) ^ n" using exp_le by (intro power_mono) auto
  then show ?thesis using exp_of_nat_mult[of n "1::real"] by simp
qed

lemma np_exp_underflow:
  assumes "875 \<le> t"
  shows "np_exp (- t) = 0"
proof -
  have "(2::real) ^ 43 \<le> (5 / 2) ^ 35" by (simp add: power_divide)
  then have "((2::real) ^ 43) ^ 25 \<le> ((5 / 2) ^ 35) ^ 25" by (intro power_mono) auto
  then have "(2::real) ^ 1075 \<le> (5 / 2) ^ 875" by (simp only: power_mult[symmetric]) simp
  also have "\<dots> \<le> exp (real 875)" by (rule exp_nat_lower)
  also have "\<dots> \<le> exp t" using assms by simp
  finally have "exp (- t) \<le> 1 / 2 ^ 1075"
    by (simp add: exp_minus field_simps)
  then show ?thesis by (simp add: np_exp_def)
qed

lemma np_exp_exact:
  assumes "t \<le> 375"
  shows "np_exp (- t) = exp (- t)"
proof -
  have "exp t \<le> exp (real 375)" using assms by simp
  also have "\<dots> \<le> 3 ^ 375" by (rule exp_nat_upper)
  also have "\<dots> < (2::real) ^ 1075"
  proof -
    have "((3::real) ^ 15) ^ 25 < (2 ^ 43) ^ 25" by (intro power_strict_mono) auto
    then show ?thesis by (simp only: power_mult[symmetric]) simp
  qed
  finally have "1 / 2 ^ 1075 < exp (- t)"
    by (simp add: exp_minus field_simps)
  then show ?thesis by (simp add: np_exp_def)
qed

lemma np_exp_nonneg: "0 \<le> np_exp x"
  by (simp add: np_exp_def)

lemma np_exp_le: "np_exp x \<le> exp x"
  by (simp add: np_exp_def)

lemma expon_norm_pos:
  assumes "1 / 5 \<le> tau"
  shows "0 < np_exp (- E_MIN / tau) - np_exp (- E_MAX / tau)"
    and "np_exp (- E_MIN / tau) = exp (- (E_MIN / tau))"
proof -
  have t: "0 < tau" using assms by simp
  have "E_MIN / tau \<le> E_MIN / (1 / 5)"
    using assms by (intro divide_left_mono) (simp_all add: E_MIN_def)
  then have "E_MIN / tau \<le> 375" by (simp add: E_MIN_def)
  then have e1: "np_exp (- (E_MIN / tau)) = exp (- (E_MIN / tau))" by (rule np_exp_exact)
  have "E_MIN / tau < E_MAX / tau" using t by (simp add: E_MIN_def E_MAX_def divide_strict_right_mono)
  then have "exp (- (E_MAX / tau)) < exp (- (E_MIN / tau))" by simp
  then have "np_exp (- (E_MAX / tau)) < exp (- (E_MIN / tau))"
    using np_exp_le[of "- (E_MAX / tau)"] by linarith
  then show "0 < np_exp (- E_MIN / tau) - np_exp (- E_MAX / tau)" using e1 by simp
  show "np_exp (- E_MIN / tau) = exp (- (E_MIN / tau))" using e1 by simp
qed

lemma gauss_nonneg: "0 < std \<Longrightarrow> 0 \<le> gauss x mean std"
  by (simp add: gauss_def)

text \<open>The value of the density where it is a number.\<close>

lemma pdf_value:
  assumes "0 < std" "1 / 5 \<le> tau"
  shows "pdf x mean std tau p =
           Finite (p * gauss x mean std +
                   (1 - p) / (np_exp (- E_MIN / tau) - np_exp (- E_MAX / tau)) *
                   (if x / tau < 0 then 0 else np_exp (- (x / tau)) / tau))"
proof -
  have t: "0 < tau" using assms by simp
  have "np_exp (- E_MIN / tau) - np_exp (- E_MAX / tau) \<noteq> 0"
    using expon_norm_pos(1)[OF assms(2)] by simp
  then show ?thesis
    using assms(1) t by (simp add: pdf_def Let_def norm_pdf_def expon_pdf_def np_divide_def)
qed

lemma pdf_nonneg:
  assumes "0 < std" "1 / 5 \<le> tau" "0 \<le> p" "p \<le> 1"
  shows "is_finite (pdf x mean std tau p) \<and> 0 \<le> finite_value (pdf x mean std tau p)"
proof -
  have t: "0 < tau" using assms by simp
  have "0 \<le> p * gauss x mean std" using assms gauss_nonneg by simp
  moreover have "0 \<le> (1 - p) / (np_exp (- E_MIN / tau) - np_exp (- E_MAX / tau)) *
                   (if x / tau < 0 then 0 else np_exp (- (x / tau)) / tau)"
    using assms t expon_norm_pos(1)[OF assms(2)] np_exp_nonneg
    by (intro mult_nonneg_nonneg divide_nonneg_pos) auto
  ultimately show ?thesis by (simp add: pdf_value[OF assms(1,2)])
qed

lemma np_sum_Finite: "np_sum (map (\<lambda>x. Finite (f x)) xs) = Finite (\<Sum>x\<leftarrow>xs. f x)"
  by (induction xs) (simp_all add: np_sum_def)

text \<open>
  C7 (counterexample). The claim: for every dataset and every parameter vector the result
  is \<open>-\<Sum> log (pdf x\<^sub>i + \<epsilon>)\<close> with a positive argument of the logarithm, hence defined. With
  \<open>tau = 0.05\<close>, inside the bounds of the fit, both exponentials of \<^verbatim>\<open>expon_norm\<close>
  underflow to zero, the background is \<open>inf * 0\<close> and the likelihood is \<open>nan\<close>: the floor is
  added to a \<open>nan\<close> and repairs nothing.
\<close>

theorem neg_log_likelihood_nan:
  "neg_log_likelihood [126, 5, 1 / 20, 1 / 5] [100, 126] = Inr NaN"
proof -
  have u: "np_exp (- 1500) = 0" "np_exp (- 3500) = 0" "np_exp (- 2000) = 0" "np_exp (- 2520) = 0"
    by (rule np_exp_underflow, simp)+
  have "pdf x 126 5 (1 / 20) (1 / 5) = NaN" if "x = 100 \<or> x = 126" for x
    using that u
    by (auto simp: pdf_def Let_def norm_pdf_def expon_pdf_def np_divide_def signed_inf_def
        E_MIN_def E_MAX_def)
  then show ?thesis by (simp add: neg_log_likelihood_def np_sum_def)
qed

text \<open>
  C7 (amended). For every dataset and every parameter vector \<open>[mean, std, tau, p]\<close> with
  \<open>std \<ge> 10\<^sup>-\<^sup>3\<^sup>0\<^sup>0\<close>, \<open>0.2 \<le> tau \<le> 10\<^sup>1\<^sup>2\<close> and \<open>0 \<le> p \<le> 1\<close>, the density is a
  non-negative number at every point, and \<^verbatim>\<open>neg_log_likelihood\<close> returns the number
  \<open>-\<Sum> ln (pdf x\<^sub>i + \<epsilon>)\<close> with the floor \<open>\<epsilon> = 10\<^sup>-\<^sup>3\<^sup>0\<close>: the argument of every logarithm is at
  least \<open>\<epsilon>\<close>, also where the density is zero.
\<close>

theorem neg_log_likelihood_floor:
  assumes "1 / 10 ^ 300 \<le> std" "1 / 5 \<le> tau" "tau \<le> 10 ^ 12" "0 \<le> p" "p \<le> 1"
  shows "(\<forall>x. is_finite (pdf x mean std tau p) \<and> 0 \<le> finite_value (pdf x mean std tau p)) \<and>
         neg_log_likelihood [mean, std, tau, p] data =
           Inr (Finite (- (\<Sum>x\<leftarrow>data. ln (finite_value (pdf x mean std tau p) + 1 / 10 ^ 30))))"
proof -
  define e :: real where "e = 1 / 10 ^ 30"
  have e: "0 < e" by (simp add: e_def)
  have s: "0 < std" using assms(1) by (rule less_le_trans[rotated]) simp
  note nn = pdf_nonneg[OF s assms(2,4,5)]
  have l: "np_log (np_add (pdf x mean std tau p) (Finite e))
         = Finite (ln (finite_value (pdf x mean std tau p) + e))" for x
  proof -
    obtain d where d: "pdf x mean std tau p = Finite d" "0 \<le> d"
      using nn[of x mean] by (cases "pdf x mean std tau p") auto
    then have "0 < d + e" using e by (simp add: add_nonneg_pos)
    then show ?thesis using d by simp
  qed
  have "neg_log_likelihood [mean, std, tau, p] data =
      Inr (np_neg (np_sum (map (\<lambda>x. np_log (np_add (pdf x mean std tau p) (Finite e))) data)))"
    by (simp add: neg_log_likelihood_def e_def)
  also have "\<dots> = Inr (Finite (- (\<Sum>x\<leftarrow>data. ln (finite_value (pdf x mean std tau p) + e))))"
    by (simp only: l np_sum_Finite np_neg.simps)
  finally show ?thesis using nn unfolding e_def by blast
qed

text \<open>
  At the upper edge of the window, with \<open>tau = 0.2\<close> and \<open>p = 0\<close>, the exponential density
  underflows and the density is zero; the likelihood of this one observation is \<open>-ln \<epsilon>\<close>.
\<close>

lemma pdf_zero_in_window: "pdf 175 126 5 (1 / 5) 0 = Finite 0"
proof -
  have "np_exp (- 875) = 0" by (rule np_exp_underflow) simp
  then show ?thesis by (simp add: pdf_value)
qed

theorem neg_log_likelihood_floor_witness:
  "(1 / 10 ^ 300 :: real) \<le> 5 \<and> (1 / 5 :: real) \<le> 1 / 5 \<and> (1 / 5 :: real) \<le> 10 ^ 12 \<and>
   pdf 175 126 5 (1 / 5) 0 = Finite 0 \<and>
   neg_log_likelihood [126, 5, 1 / 5, 0] [175] = Inr (Finite (- ln (1 / 10 ^ 30)))"
proof -
  have a: "(1 / 10 ^ 300 :: real) \<le> 5" by simp
  have b: "(1 / 5 :: real) \<le> 1 / 5" "(1 / 5 :: real) \<le> 10 ^ 12" "(0::real) \<le> 0" "(0::real) \<le> 1"
    by simp_all
  from neg_log_likelihood_floor[OF a b, of 126 "[175]"]
  have "neg_log_likelihood [126, 5, 1 / 5, 0] [175]
      = Inr (Finite (- (\<Sum>x\<leftarrow>[175]. ln (finite_value (pdf x 126 5 (1 / 5) 0) + 1 / 10 ^ 30))))"
    by blast
  then show ?thesis using pdf_zero_in_window a b by simp
qed

subsection \<open>The integral of the density over the window\<close>

text \<open>
  With \<open>tau \<ge> 1\<close> no exponential underflows at a point of the window \<open>[75, 175]\<close>, and
  the exponential density is the smooth function \<open>exp (- x / tau) / tau\<close> there.
\<close>

lemma integrates_to_cong:
  assumes "\<And>x. a \<le> x \<Longrightarrow> x \<le> b \<Longrightarrow> f x = g x"
  shows "integrates_to f a b v \<longleftrightarrow> integrates_to g a b v"
  unfolding integrates_to_def using assms by auto

lemma integrates_to_add:
  assumes "integrates_to f a b u" "integrates_to g a b w"
  shows "integrates_to (\<lambda>x. f x + g x) a b (u + w)"
proof -
  obtain F where F: "\<And>x. a \<le> x \<Longrightarrow> x \<le> b \<Longrightarrow> (F has_real_derivative f x) (at x)" "F b - F a = u"
    using assms(1) unfolding integrates_to_def by blast
  obtain G where G: "\<And>x. a \<le> x \<Longrightarrow> x \<le> b \<Longrightarrow> (G has_real_derivative g x) (at x)" "G b - G a = w"
    using assms(2) unfolding integrates_to_def by blast
  have "((\<lambda>x. F x + G x) has_real_derivative f x + g x) (at x)" if "a \<le> x" "x \<le> b" for x
    using F(1)[OF that] G(1)[OF that] by (rule DERIV_add)
  moreover have "(F b + G b) - (F a + G a) = u + w" using F(2) G(2) by simp
  ultimately show ?thesis unfolding integrates_to_def by blast
qed

lemma integrates_to_diff:
  assumes "integrates_to f a b u" "integrates_to g a b w"
  shows "integrates_to (\<lambda>x. f x - g x) a b (u - w)"
proof -
  obtain F where F: "\<And>x. a \<le> x \<Longrightarrow> x \<le> b \<Longrightarrow> (F has_real_derivative f x) (at x)" "F b - F a = u"
    using assms(1) unfolding integrates_to_def by blast
  obtain G where G: "\<And>x. a \<le> x \<Longrightarrow> x \<le> b \<Longrightarrow> (G has_real_derivative g x) (at x)" "G b - G a = w"
    using assms(2) unfolding integrates_to_def by blast
  have "((\<lambda>x. F x - G x) has_real_derivative f x - g x) (at x)" if "a \<le> x" "x \<le> b" for x
    using F(1)[OF that] G(1)[OF that] by (rule DERIV_diff)
  moreover have "(F b - G b) - (F a - G a) = u - w" using F(2) G(2) by simp
  ultimately show ?thesis unfolding integrates_to_def by blast
qed

lemma exponential_integral:
  assumes t: "0 < tau"
  shows "integrates_to (\<lambda>x. c * (exp (- (x / tau)) / tau)) a b
           (c * (exp (- (a / tau)) - exp (- (b / tau))))"
proof -
  define F where "F = (\<lambda>x. - c * exp (- (x / tau)))"
  have "(F has_real_derivative c * (exp (- (x / tau)) / tau)) (at x)" for x
    unfolding F_def using t by (auto intro!: derivative_eq_intros simp: field_simps)
  moreover have "F b - F a = c * (exp (- (a / tau)) - exp (- (b / tau)))"
    by (simp add: F_def algebra_simps)
  ultimately show ?thesis unfolding integrates_to_def by blast
qed

lemma window_exact:
  assumes "1 \<le> tau" "E_MIN \<le> x" "x \<le> E_MAX"
  shows "np_exp (- (x / tau)) = exp (- (x / tau))" "\<not> x / tau < 0"
    "np_exp (- E_MAX / tau) = exp (- (E_MAX / tau))"
    "np_exp (- E_MIN / tau) = exp (- (E_MIN / tau))"
proof -
  have t: "0 < tau" using assms(1) by simp
  have b: "y / tau \<le> 375" if "y \<le> 175" "0 \<le> y" for y
  proof -
    have "y / tau \<le> y / 1" using assms(1) that by (intro divide_left_mono) auto
    then show ?thesis using that by simp
  qed
  have x: "0 \<le> x" "x \<le> 175" using assms by (simp_all add: E_MIN_def E_MAX_def)
  show "np_exp (- (x / tau)) = exp (- (x / tau))" by (rule np_exp_exact[OF b[OF x(2,1)]])
  show "\<not> x / tau < 0" using x t by (simp add: not_less)
  have "np_exp (- (E_MAX / tau)) = exp (- (E_MAX / tau))"
    by (rule np_exp_exact[OF b]) (simp_all add: E_MAX_def)
  then show "np_exp (- E_MAX / tau) = exp (- (E_MAX / tau))" by simp
  have "np_exp (- (E_MIN / tau)) = exp (- (E_MIN / tau))"
    by (rule np_exp_exact[OF b]) (simp_all add: E_MIN_def)
  then show "np_exp (- E_MIN / tau) = exp (- (E_MIN / tau))" by simp
qed

lemma E_window: "E_MIN \<le> E_MIN" "E_MIN \<le> E_MAX"
  by (simp_all add: E_MIN_def E_MAX_def)

lemma background_integral:
  assumes "1 \<le> tau"
  shows "integrates_to
           (\<lambda>x. c / (np_exp (- E_MIN / tau) - np_exp (- E_MAX / tau)) * finite_value (expon_pdf x tau))
           E_MIN E_MAX c"
proof -
  have t: "0 < tau" using assms by simp
  define en where "en = exp (- (E_MIN / tau)) - exp (- (E_MAX / tau))"
  have en: "np_exp (- E_MIN / tau) - np_exp (- E_MAX / tau) = en"
    using window_exact(3,4)[OF assms E_window] by (simp add: en_def)
  have pos: "en \<noteq> 0" using expon_norm_pos(1)[of tau] assms en by simp
  have "integrates_to (\<lambda>x. c / en * (exp (- (x / tau)) / tau)) E_MIN E_MAX (c / en * en)"
    unfolding en_def by (rule exponential_integral[OF t])
  then have "integrates_to (\<lambda>x. c / en * (exp (- (x / tau)) / tau)) E_MIN E_MAX c"
    using pos by simp
  moreover have "integrates_to (\<lambda>x. c / en * finite_value (expon_pdf x tau)) E_MIN E_MAX c
      \<longleftrightarrow> integrates_to (\<lambda>x. c / en * (exp (- (x / tau)) / tau)) E_MIN E_MAX c"
  proof (rule integrates_to_cong)
    fix x assume "E_MIN \<le> x" "x \<le> E_MAX"
    then show "c / en * finite_value (expon_pdf x tau) = c / en * (exp (- (x / tau)) / tau)"
      using window_exact(1,2)[OF assms] t by (simp add: expon_pdf_def)
  qed
  ultimately show ?thesis unfolding en by simp
qed

lemma pdf_split:
  assumes "0 < std" "1 \<le> tau"
  shows "finite_value (pdf x mean std tau p) =
           p * gauss x mean std +
           (1 - p) / (np_exp (- E_MIN / tau) - np_exp (- E_MAX / tau)) * finite_value (expon_pdf x tau)"
    and "is_finite (pdf x mean std tau p)"
proof -
  have t: "1 / 5 \<le> tau" "0 < tau" using assms(2) by simp_all
  show "finite_value (pdf x mean std tau p) =
           p * gauss x mean std +
           (1 - p) / (np_exp (- E_MIN / tau) - np_exp (- E_MAX / tau)) * finite_value (expon_pdf x tau)"
    using t by (simp add: pdf_value[OF assms(1) t(1)] expon_pdf_def)
  show "is_finite (pdf x mean std tau p)" by (simp add: pdf_value[OF assms(1) t(1)])
qed

lemma pdf_integral_iff:
  assumes "0 < std" "1 \<le> tau"
  shows "integrates_to (\<lambda>x. finite_value (pdf x mean std tau p)) E_MIN E_MAX v \<longleftrightarrow>
         integrates_to (\<lambda>x. p * gauss x mean std) E_MIN E_MAX (v - (1 - p))"
proof
  let ?bg = "\<lambda>x. (1 - p) / (np_exp (- E_MIN / tau) - np_exp (- E_MAX / tau)) * finite_value (expon_pdf x tau)"
  note bg = background_integral[OF assms(2), of "1 - p"]
  {
    assume "integrates_to (\<lambda>x. finite_value (pdf x mean std tau p)) E_MIN E_MAX v"
    then have "integrates_to (\<lambda>x. finite_value (pdf x mean std tau p) - ?bg x) E_MIN E_MAX (v - (1 - p))"
      using bg by (rule integrates_to_diff)
    then show "integrates_to (\<lambda>x. p * gauss x mean std) E_MIN E_MAX (v - (1 - p))"
      by (simp add: pdf_split(1)[OF assms])
  next
    assume "integrates_to (\<lambda>x. p * gauss x mean std) E_MIN E_MAX (v - (1 - p))"
    then have "integrates_to (\<lambda>x. p * gauss x mean std + ?bg x) E_MIN E_MAX (v - (1 - p) + (1 - p))"
      using bg by (rule integrates_to_add)
    then show "integrates_to (\<lambda>x. finite_value (pdf x mean std tau p)) E_MIN E_MAX v"
      by (simp add: pdf_split(1)[OF assms])
  }
qed

lemma gauss_small:
  assumes "50 < std"
  shows "gauss x mean std < 1 / 100"
proof -
  have s: "0 < std" using assms by simp
  have "2 \<le> sqrt (2 * pi)"
  proof -
    have "sqrt 4 \<le> sqrt (2 * pi)" using pi_ge_two by (intro real_sqrt_le_mono) simp
    then show ?thesis by simp
  qed
  then have "2 * 50 < sqrt (2 * pi) * std"
    using assms by (intro mult_le_less_imp_less) auto
  then have D: "100 < sqrt (2 * pi) * std" by simp
  define D where "D = sqrt (2 * pi) * std"
  have D': "100 < D" using D by (simp add: D_def)
  have "exp (- ((x - mean) / std)\<^sup>2 / 2) / D \<le> 1 / D"
    using D' by (intro divide_right_mono) auto
  also have "\<dots> < 1 / 100" using D' by (simp add: field_simps)
  finally show ?thesis by (simp add: gauss_def D_def)
qed

lemma signal_mass_small:
  assumes "\<And>x. E_MIN \<le> x \<Longrightarrow> x \<le> E_MAX \<Longrightarrow> g x < 1 / 100" "0 < p"
    and "integrates_to (\<lambda>x. p * g x) E_MIN E_MAX m"
  shows "m < p"
proof -
  obtain G where G: "\<And>x. 75 \<le> x \<Longrightarrow> x \<le> 175 \<Longrightarrow> (G has_real_derivative p * g x) (at x)"
    and m: "G 175 - G 75 = m"
    using assms(3) unfolding integrates_to_def E_MIN_def E_MAX_def by blast
  have "\<exists>z. 75 < z \<and> z < 175 \<and> G 175 - G 75 = (175 - 75) * (p * g z)"
    by (rule MVT2) (use G in auto)
  then obtain z where z: "75 < z" "z < 175" "m = 100 * (p * g z)" using m by auto
  have "g z < 1 / 100" using assms(1)[of z] z by (simp add: E_MIN_def E_MAX_def)
  then have "p * g z < p * (1 / 100)" using assms(2) by (intro mult_strict_left_mono)
  then show ?thesis using z(3) by simp
qed

subsection \<open>An antiderivative of the normal density\<close>

text \<open>
  The normal density has an antiderivative on the whole line, the power series of
  \<open>\<integral> exp (- z\<^sup>2 / 2)\<close> integrated term by term; so its mass over the window exists, and
  with it the integral of the density.
\<close>

definition gauss_coeff :: "nat \<Rightarrow> real" where
  "gauss_coeff n = (if even n then (- 1 / 2) ^ (n div 2) / fact (n div 2) else 0)"

definition erf_coeff :: "nat \<Rightarrow> real" where
  "erf_coeff n = (if n = 0 then 0 else gauss_coeff (n - 1) / real n)"

lemma diffs_erf_coeff: "diffs erf_coeff = gauss_coeff"
  by (rule ext) (simp add: diffs_def erf_coeff_def)

lemma gauss_coeff_even:
  "gauss_coeff (2 * k) * x ^ (2 * k) = (- (x\<^sup>2) / 2) ^ k / fact k"
proof -
  have "- (x\<^sup>2) / 2 = (- 1 / 2) * x\<^sup>2" by simp
  then have "(- (x\<^sup>2) / 2) ^ k = ((- 1 / 2) * x\<^sup>2) ^ k" by (rule arg_cong)
  also have "\<dots> = (- 1 / 2) ^ k * (x\<^sup>2) ^ k" by (rule power_mult_distrib)
  also have "(x\<^sup>2) ^ k = x ^ (2 * k)" by (rule power_mult[symmetric])
  finally have e: "(- (x\<^sup>2) / 2) ^ k = (- 1 / 2) ^ k * x ^ (2 * k)" .
  have "gauss_coeff (2 * k) = (- 1 / 2) ^ k / fact k" by (simp add: gauss_coeff_def)
  then show ?thesis by (simp only: e times_divide_eq_left)
qed

lemma gauss_coeff_term:
  "gauss_coeff n * x ^ n = (if even n then (- (x\<^sup>2) / 2) ^ (n div 2) / fact (n div 2) else 0)"
proof (cases "even n")
  case True
  then obtain k where k: "n = 2 * k" by (auto elim: evenE)
  then have "n div 2 = k" by simp
  then show ?thesis using True gauss_coeff_even[of k x] k by (simp only: if_True)
next
  case False
  then have "gauss_coeff n = 0" by (simp add: gauss_coeff_def)
  then show ?thesis using False by simp
qed

lemma exp_series: "(\<lambda>k. y ^ k / fact k) sums exp (y::real)"
  using exp_converges[of y] by (simp add: divide_inverse_commute)

lemma even_series:
  fixes f :: "nat \<Rightarrow> real"
  assumes "f sums s"
  shows "(\<lambda>n. if even n then f (n div 2) else 0) sums s"
proof -
  have z: "(\<lambda>k. 0::real) sums 0" by (rule sums_zero)
  have "(\<lambda>n. if even n then f (n div 2) else (\<lambda>k. 0) ((n - 1) div 2)) sums (0 + s)"
    by (rule sums_if[OF z assms])
  then show ?thesis by simp
qed

lemma gauss_series: "(\<lambda>n. gauss_coeff n * x ^ n) sums exp (- (x\<^sup>2) / 2)"
  using even_series[OF exp_series[of "- (x\<^sup>2) / 2"]] by (simp only: gauss_coeff_term)

lemma gauss_series_abs: "summable (\<lambda>n. \<bar>gauss_coeff n * x ^ n\<bar>)"
proof -
  let ?y = "x\<^sup>2 / 2"
  have y: "\<bar>- (x\<^sup>2) / 2\<bar> = ?y" by simp
  have "\<bar>gauss_coeff n * x ^ n\<bar> = (if even n then ?y ^ (n div 2) / fact (n div 2) else 0)" for n
  proof (cases "even n")
    case True
    have "\<bar>(- (x\<^sup>2) / 2) ^ (n div 2) / fact (n div 2)\<bar>
        = \<bar>- (x\<^sup>2) / 2\<bar> ^ (n div 2) / fact (n div 2)"
      by (simp add: abs_divide power_abs)
    then show ?thesis using True by (simp only: gauss_coeff_term y if_True)
  next
    case False
    then show ?thesis by (simp only: gauss_coeff_term if_False abs_zero)
  qed
  then have "(\<lambda>n. \<bar>gauss_coeff n * x ^ n\<bar>) sums exp ?y"
    using even_series[OF exp_series[of ?y]] by (simp only:)
  then show ?thesis by (rule sums_summable)
qed

lemma erf_series_summable: "summable (\<lambda>n. erf_coeff n * y ^ n)"
proof -
  have s: "summable (\<lambda>n. \<bar>gauss_coeff n * y ^ n\<bar> * \<bar>y\<bar>)"
    by (rule summable_mult2[OF gauss_series_abs])
  have le: "norm (erf_coeff (Suc n) * y ^ Suc n) \<le> \<bar>gauss_coeff n * y ^ n\<bar> * \<bar>y\<bar>" for n
  proof -
    let ?t = "\<bar>gauss_coeff n * y ^ n\<bar> * \<bar>y\<bar>"
    have "erf_coeff (Suc n) = gauss_coeff n / real (Suc n)" by (simp add: erf_coeff_def)
    then have "erf_coeff (Suc n) * y ^ Suc n = gauss_coeff n * y ^ n * y / real (Suc n)" by simp
    then have "\<bar>erf_coeff (Suc n) * y ^ Suc n\<bar> = ?t / real (Suc n)"
      by (simp only: abs_divide abs_mult abs_of_nat)
    also have "\<dots> \<le> ?t / 1"
    proof (rule divide_left_mono)
      show "1 \<le> real (Suc n)" by simp
      show "0 \<le> ?t" by (rule mult_nonneg_nonneg) simp_all
      show "0 < real (Suc n) * 1" by simp
    qed
    finally show ?thesis by simp
  qed
  have "summable (\<lambda>n. erf_coeff (Suc n) * y ^ Suc n)"
    by (rule summable_comparison_test'[OF s, of 0]) (rule le)
  with summable_Suc_iff[of "\<lambda>n. erf_coeff n * y ^ n"] show ?thesis by blast
qed

lemma exp_square_antiderivative:
  "((\<lambda>z. \<Sum>n. erf_coeff n * z ^ n) has_real_derivative exp (- (z\<^sup>2) / 2)) (at z)"
proof -
  have "((\<lambda>z. \<Sum>n. erf_coeff n * z ^ n) has_real_derivative (\<Sum>n. diffs erf_coeff n * z ^ n)) (at z)"
    by (rule termdiffs_strong_converges_everywhere) (rule erf_series_summable)
  moreover have "(\<Sum>n. diffs erf_coeff n * z ^ n) = exp (- (z\<^sup>2) / 2)"
    using gauss_series[of z] by (simp add: diffs_erf_coeff sums_iff)
  ultimately show ?thesis by simp
qed

lemma gauss_antiderivative:
  assumes "0 < std"
  shows "\<exists>G. \<forall>x. (G has_real_derivative gauss x mean std) (at x)"
proof -
  let ?E = "\<lambda>z. \<Sum>n. erf_coeff n * z ^ n"
  let ?G = "\<lambda>x. ?E ((x - mean) / std) / sqrt (2 * pi)"
  have "(?G has_real_derivative gauss x mean std) (at x)" for x
  proof -
    have "((\<lambda>x. (x - mean) / std) has_real_derivative 1 / std) (at x)"
      using assms by (auto intro!: derivative_eq_intros)
    from DERIV_chain2[OF exp_square_antiderivative this]
    have "((\<lambda>x. ?E ((x - mean) / std)) has_real_derivative
             exp (- (((x - mean) / std)\<^sup>2) / 2) * (1 / std)) (at x)" .
    then have "(?G has_real_derivative
             exp (- (((x - mean) / std)\<^sup>2) / 2) * (1 / std) / sqrt (2 * pi)) (at x)"
      by (rule DERIV_cdivide)
    moreover have "exp (- (((x - mean) / std)\<^sup>2) / 2) * (1 / std) / sqrt (2 * pi)
        = gauss x mean std"
      by (simp add: gauss_def)
    ultimately show ?thesis by (simp only:)
  qed
  then show ?thesis by blast
qed

lemma integrates_to_unique:
  assumes "a < b" "integrates_to f a b v" "integrates_to f a b w"
  shows "v = w"
proof -
  obtain F where F: "\<And>x. a \<le> x \<Longrightarrow> x \<le> b \<Longrightarrow> (F has_real_derivative f x) (at x)"
    and v: "F b - F a = v"
    using assms(2) unfolding integrates_to_def by blast
  obtain G where G: "\<And>x. a \<le> x \<Longrightarrow> x \<le> b \<Longrightarrow> (G has_real_derivative f x) (at x)"
    and w: "G b - G a = w"
    using assms(3) unfolding integrates_to_def by blast
  have "((\<lambda>x. F x - G x) has_real_derivative (\<lambda>x. 0) x) (at x)" if "a \<le> x" "x \<le> b" for x
    using DERIV_diff[OF F[OF that] G[OF that]] by simp
  then have "\<exists>z. a < z \<and> z < b \<and> (F b - G b) - (F a - G a) = (b - a) * (\<lambda>x. 0) z"
    using assms(1) by (intro MVT2) auto
  then show ?thesis using v w by auto
qed

lemma integrates_to_scale:
  assumes "integrates_to f a b m"
  shows "integrates_to (\<lambda>x. p * f x) a b (p * m)"
proof -
  obtain F where F: "\<And>x. a \<le> x \<Longrightarrow> x \<le> b \<Longrightarrow> (F has_real_derivative f x) (at x)"
    and m: "F b - F a = m"
    using assms unfolding integrates_to_def by blast
  have "((\<lambda>x. p * F x) has_real_derivative p * f x) (at x)" if "a \<le> x" "x \<le> b" for x
    by (rule DERIV_cmult[OF F[OF that]])
  moreover have "p * F b - p * F a = p * m" using m by (simp add: algebra_simps)
  ultimately show ?thesis unfolding integrates_to_def by blast
qed

lemma gauss_mass:
  assumes "0 < std"
  shows "\<exists>m. integrates_to (\<lambda>x. gauss x mean std) a b m"
proof -
  obtain G where "\<forall>x. (G has_real_derivative gauss x mean std) (at x)"
    using gauss_antiderivative[OF assms] by blast
  then have "integrates_to (\<lambda>x. gauss x mean std) a b (G b - G a)"
    unfolding integrates_to_def by blast
  then show ?thesis ..
qed

lemma pdf_integral_value:
  assumes s: "0 < std" and t: "1 \<le> tau"
    and m: "integrates_to (\<lambda>x. gauss x mean std) E_MIN E_MAX m"
  shows "integrates_to (\<lambda>x. finite_value (pdf x mean std tau p)) E_MIN E_MAX v \<longleftrightarrow>
         v = p * m + (1 - p)"
proof -
  have pm: "integrates_to (\<lambda>x. p * gauss x mean std) E_MIN E_MAX (p * m)"
    by (rule integrates_to_scale[OF m])
  have lt: "E_MIN < E_MAX" by (simp add: E_MIN_def E_MAX_def)
  show ?thesis
  proof
    assume "integrates_to (\<lambda>x. finite_value (pdf x mean std tau p)) E_MIN E_MAX v"
    then have "integrates_to (\<lambda>x. p * gauss x mean std) E_MIN E_MAX (v - (1 - p))"
      by (simp only: pdf_integral_iff[OF s t])
    then have "v - (1 - p) = p * m" by (rule integrates_to_unique[OF lt _ pm])
    then show "v = p * m + (1 - p)" by simp
  next
    assume "v = p * m + (1 - p)"
    then have "v - (1 - p) = p * m" by simp
    then have "integrates_to (\<lambda>x. p * gauss x mean std) E_MIN E_MAX (v - (1 - p))"
      using pm by simp
    then show "integrates_to (\<lambda>x. finite_value (pdf x mean std tau p)) E_MIN E_MAX v"
      by (simp only: pdf_integral_iff[OF s t])
  qed
qed

text \<open>
  C4 (counterexample). The claim: for every \<open>p \<in> [0, 1]\<close>, \<open>std > 0\<close> and \<open>tau > 0\<close> the
  density integrates to exactly \<open>1\<close> over \<open>[75, 175]\<close>, each sub-density being normalised
  over the window. The signal is the normal density of the whole line: with \<open>p = 1\<close>,
  \<open>mean = 0\<close> and \<open>std = 1\<close> the density does not integrate to \<open>1\<close> over the window.
\<close>

theorem pdf_not_normalized:
  "\<not> integrates_to (\<lambda>x. finite_value (pdf x 0 1 1 1)) E_MIN E_MAX 1"
proof
  assume "integrates_to (\<lambda>x. finite_value (pdf x 0 1 1 1)) E_MIN E_MAX 1"
  then have i: "integrates_to (\<lambda>x. 1 * gauss x 0 1) E_MIN E_MAX (1 - (1 - 1))"
    using pdf_integral_iff[of 1 1 0 1 1] by simp
  have "gauss x 0 1 < 1 / 100" if "E_MIN \<le> x" for x
  proof -
    let ?t = "x\<^sup>2 / 2"
    have "75 * 75 \<le> x * x" using that by (intro mult_mono) (auto simp: E_MIN_def)
    then have t: "2812 < ?t" by (simp add: power2_eq_square)
    have "1 + ?t \<le> exp ?t" by (rule exp_ge_add_one_self)
    then have "exp (- ?t) \<le> 1 / (1 + ?t)" using t by (simp add: exp_minus field_simps)
    also have "\<dots> < 1 / 100" using t by (simp add: field_simps)
    finally have e: "exp (- ?t) < 1 / 100" .
    have "1 \<le> 2 * pi" using pi_ge_two by simp
    then have "1 \<le> sqrt (2 * pi)" by simp
    then have "exp (- ?t) / sqrt (2 * pi) \<le> exp (- ?t) / 1" by (intro divide_left_mono) auto
    moreover have "gauss x 0 1 = exp (- ?t) / sqrt (2 * pi)" by (simp add: gauss_def)
    ultimately show ?thesis using e by linarith
  qed
  then have "1 - (1 - 1) < (1::real)"
    using signal_mass_small[of "\<lambda>x. gauss x 0 1" 1, OF _ _ i] by simp
  then show False by simp
qed

text \<open>
  C4 (amended). For \<open>std \<ge> 10\<^sup>-\<^sup>3\<^sup>0\<^sup>0\<close>, \<open>1 \<le> tau \<le> 10\<^sup>1\<^sup>2\<close> and \<open>0 \<le> p \<le> 1\<close> the density is
  a number at every point, and the background sub-density, the exponential density
  divided by \<^verbatim>\<open>expon_norm\<close>, integrates to exactly \<open>1\<close> over \<open>[75, 175]\<close>. The signal
  sub-density is the normal density of the whole line: it has a mass \<open>m\<close> over the window,
  and the integral of the density over the window is \<open>p m + (1 - p)\<close> and no other number.
  For \<open>p > 0\<close> and \<open>std > 50\<close> this is below \<open>1\<close>; for \<open>p = 0\<close> it is exactly \<open>1\<close>. An
  integral is given by an antiderivative on the window.
\<close>

theorem pdf_window_integral:
  assumes "1 / 10 ^ 300 \<le> std" "1 \<le> tau" "tau \<le> 10 ^ 12" "0 \<le> p" "p \<le> 1"
  shows "(\<forall>x. is_finite (pdf x mean std tau p)) \<and>
         integrates_to
           (\<lambda>x. finite_value (expon_pdf x tau) / (np_exp (- E_MIN / tau) - np_exp (- E_MAX / tau)))
           E_MIN E_MAX 1 \<and>
         (\<exists>m. integrates_to (\<lambda>x. gauss x mean std) E_MIN E_MAX m \<and>
              (\<forall>v. integrates_to (\<lambda>x. finite_value (pdf x mean std tau p)) E_MIN E_MAX v \<longleftrightarrow>
                   v = p * m + (1 - p)) \<and>
              (0 < p \<and> 50 < std \<longrightarrow> p * m + (1 - p) < 1)) \<and>
         (p = 0 \<longrightarrow> integrates_to (\<lambda>x. finite_value (pdf x mean std tau p)) E_MIN E_MAX 1)"
proof -
  have s: "0 < std" using assms(1) by (rule less_le_trans[rotated]) simp
  have a: "\<forall>x. is_finite (pdf x mean std tau p)" using pdf_split(2)[OF s assms(2)] by blast
  have b: "integrates_to
           (\<lambda>x. finite_value (expon_pdf x tau) / (np_exp (- E_MIN / tau) - np_exp (- E_MAX / tau)))
           E_MIN E_MAX 1"
    using background_integral[OF assms(2), of 1] by simp
  obtain m where m: "integrates_to (\<lambda>x. gauss x mean std) E_MIN E_MAX m"
    using gauss_mass[OF s] by blast
  note val = pdf_integral_value[OF s assms(2) m]
  have d: "p * m + (1 - p) < 1" if "0 < p" "50 < std"
  proof -
    have "p * m < p"
      by (rule signal_mass_small[OF gauss_small[OF that(2)] that(1) integrates_to_scale[OF m]])
    then show ?thesis by simp
  qed
  have c: "integrates_to (\<lambda>x. finite_value (pdf x mean std tau p)) E_MIN E_MAX 1" if "p = 0"
    using val[of p 1] that by simp
  have e: "\<exists>m. integrates_to (\<lambda>x. gauss x mean std) E_MIN E_MAX m \<and>
              (\<forall>v. integrates_to (\<lambda>x. finite_value (pdf x mean std tau p)) E_MIN E_MAX v \<longleftrightarrow>
                   v = p * m + (1 - p)) \<and>
              (0 < p \<and> 50 < std \<longrightarrow> p * m + (1 - p) < 1)"
    using m val d by blast
  show ?thesis using a b e c by blast
qed

text \<open>A wide peak at \<open>126\<close>: \<open>std = 60\<close>, \<open>tau = 50\<close>, and \<open>p = 0\<close> or \<open>p = 0.2\<close>.\<close>

theorem pdf_window_integral_witness:
  "(1 / 10 ^ 300 :: real) \<le> 60 \<and> (1::real) \<le> 50 \<and> (50::real) \<le> 10 ^ 12 \<and>
   integrates_to
     (\<lambda>x. finite_value (expon_pdf x 50) / (np_exp (- E_MIN / 50) - np_exp (- E_MAX / 50)))
     E_MIN E_MAX 1 \<and>
   integrates_to (\<lambda>x. finite_value (pdf x 126 60 50 0)) E_MIN E_MAX 1 \<and>
   (\<exists>v. integrates_to (\<lambda>x. finite_value (pdf x 126 60 50 (1 / 5))) E_MIN E_MAX v \<and> v < 1) \<and>
   \<not> integrates_to (\<lambda>x. finite_value (pdf x 126 60 50 (1 / 5))) E_MIN E_MAX 1"
proof -
  have h: "(1 / 10 ^ 300 :: real) \<le> 60" "(1::real) \<le> 50" "(50::real) \<le> 10 ^ 12" by simp_all
  have p0: "(0::real) \<le> 0" "(0::real) \<le> 1" by simp_all
  have p1: "(0::real) \<le> 1 / 5" "(1 / 5 :: real) \<le> 1" by simp_all
  note w0 = pdf_window_integral[OF h p0, of 126]
  note w1 = pdf_window_integral[OF h p1, of 126]
  have a: "integrates_to (\<lambda>x. finite_value (pdf x 126 60 50 0)) E_MIN E_MAX 1"
    using w0[THEN conjunct2, THEN conjunct2, THEN conjunct2] by simp
  have c: "integrates_to
     (\<lambda>x. finite_value (expon_pdf x 50) / (np_exp (- E_MIN / 50) - np_exp (- E_MAX / 50)))
     E_MIN E_MAX 1"
    by (rule w1[THEN conjunct2, THEN conjunct1])
  have q: "(0::real) < 1 / 5 \<and> (50::real) < 60" by simp
  obtain m where
    v: "\<And>v. integrates_to (\<lambda>x. finite_value (pdf x 126 60 50 (1 / 5))) E_MIN E_MAX v \<longleftrightarrow>
           v = 1 / 5 * m + (1 - 1 / 5)"
    and l: "0 < (1 / 5 :: real) \<and> (50::real) < 60 \<longrightarrow> 1 / 5 * m + (1 - 1 / 5) < 1"
    using w1[THEN conjunct2, THEN conjunct2, THEN conjunct1] by blast
  have l': "1 / 5 * m + (1 - 1 / 5) < 1" using l q by blast
  have i: "integrates_to (\<lambda>x. finite_value (pdf x 126 60 50 (1 / 5))) E_MIN E_MAX (1 / 5 * m + (1 - 1 / 5))"
    using v by blast
  have b: "\<exists>v. integrates_to (\<lambda>x. finite_value (pdf x 126 60 50 (1 / 5))) E_MIN E_MAX v \<and> v < 1"
    using i l' by blast
  have n: "\<not> integrates_to (\<lambda>x. finite_value (pdf x 126 60 50 (1 / 5))) E_MIN E_MAX 1"
  proof
    assume "integrates_to (\<lambda>x. finite_value (pdf x 126 60 50 (1 / 5))) E_MIN E_MAX 1"
    then have "1 = 1 / 5 * m + (1 - 1 / 5)" using v by blast
    then show False using l' by simp
  qed
  show ?thesis using h a c b n by blast
qed

end
